theory Spec2Isabelle
  imports Main "HOL-Library.Word"
begin

section \<open>External scanner of tree-sitter-markdown (src/scanner.cc)\<close>

subsection \<open>Token and block tags\<close>

text \<open>
  \<^verbatim>\<open>enum TokenType\<close>: C enumerators are integers, and the scanner computes with them
  (\<^verbatim>\<open>ATX_H1_MARKER + (level - 1)\<close>), so a token is its number. The mask
  \<^verbatim>\<open>valid_symbols\<close> is an array of booleans indexed by these numbers.
\<close>

type_synonym TokenType = nat

abbreviation (input) LINE_ENDING :: TokenType where "LINE_ENDING \<equiv> 0"
abbreviation (input) INDENTATION :: TokenType where "INDENTATION \<equiv> 1"
abbreviation (input) VIRTUAL_SPACE :: TokenType where "VIRTUAL_SPACE \<equiv> 2"
abbreviation (input) MATCHING_DONE :: TokenType where "MATCHING_DONE \<equiv> 3"
abbreviation (input) BLOCK_CLOSE :: TokenType where "BLOCK_CLOSE \<equiv> 4"
abbreviation (input) BLOCK_CLOSE_LOOSE :: TokenType where "BLOCK_CLOSE_LOOSE \<equiv> 5"
abbreviation (input) BLOCK_CONTINUATION :: TokenType where "BLOCK_CONTINUATION \<equiv> 6"
abbreviation (input) LAZY_CONTINUATION :: TokenType where "LAZY_CONTINUATION \<equiv> 7"
abbreviation (input) BLOCK_QUOTE_START :: TokenType where "BLOCK_QUOTE_START \<equiv> 8"
abbreviation (input) INDENTED_CHUNK_START :: TokenType where "INDENTED_CHUNK_START \<equiv> 9"
abbreviation (input) ATX_H1_MARKER :: TokenType where "ATX_H1_MARKER \<equiv> 10"
abbreviation (input) ATX_H2_MARKER :: TokenType where "ATX_H2_MARKER \<equiv> 11"
abbreviation (input) ATX_H3_MARKER :: TokenType where "ATX_H3_MARKER \<equiv> 12"
abbreviation (input) ATX_H4_MARKER :: TokenType where "ATX_H4_MARKER \<equiv> 13"
abbreviation (input) ATX_H5_MARKER :: TokenType where "ATX_H5_MARKER \<equiv> 14"
abbreviation (input) ATX_H6_MARKER :: TokenType where "ATX_H6_MARKER \<equiv> 15"
abbreviation (input) SETEXT_H1_UNDERLINE :: TokenType where "SETEXT_H1_UNDERLINE \<equiv> 16"
abbreviation (input) SETEXT_H2_UNDERLINE :: TokenType where "SETEXT_H2_UNDERLINE \<equiv> 17"
abbreviation (input) SETEXT_H2_UNDERLINE_OR_THEMATIC_BREAK :: TokenType
  where "SETEXT_H2_UNDERLINE_OR_THEMATIC_BREAK \<equiv> 18"
abbreviation (input) THEMATIC_BREAK :: TokenType where "THEMATIC_BREAK \<equiv> 19"
abbreviation (input) LIST_MARKER_MINUS :: TokenType where "LIST_MARKER_MINUS \<equiv> 20"
abbreviation (input) LIST_MARKER_PLUS :: TokenType where "LIST_MARKER_PLUS \<equiv> 21"
abbreviation (input) LIST_MARKER_STAR :: TokenType where "LIST_MARKER_STAR \<equiv> 22"
abbreviation (input) LIST_MARKER_PARENTHETHIS :: TokenType where "LIST_MARKER_PARENTHETHIS \<equiv> 23"
abbreviation (input) LIST_MARKER_DOT :: TokenType where "LIST_MARKER_DOT \<equiv> 24"
abbreviation (input) FENCED_CODE_BLOCK_START :: TokenType where "FENCED_CODE_BLOCK_START \<equiv> 25"
abbreviation (input) BLANK_LINE :: TokenType where "BLANK_LINE \<equiv> 26"
abbreviation (input) CODE_SPAN_START :: TokenType where "CODE_SPAN_START \<equiv> 27"
abbreviation (input) CODE_SPAN_CLOSE :: TokenType where "CODE_SPAN_CLOSE \<equiv> 28"
abbreviation (input) LAST_TOKEN_WHITESPACE :: TokenType where "LAST_TOKEN_WHITESPACE \<equiv> 29"
abbreviation (input) LAST_TOKEN_PUNCTUATION :: TokenType where "LAST_TOKEN_PUNCTUATION \<equiv> 30"
abbreviation (input) EMPHASIS_OPEN_STAR :: TokenType where "EMPHASIS_OPEN_STAR \<equiv> 31"
abbreviation (input) EMPHASIS_OPEN_UNDERSCORE :: TokenType where "EMPHASIS_OPEN_UNDERSCORE \<equiv> 32"
abbreviation (input) EMPHASIS_CLOSE_STAR :: TokenType where "EMPHASIS_CLOSE_STAR \<equiv> 33"
abbreviation (input) EMPHASIS_CLOSE_UNDERSCORE :: TokenType where "EMPHASIS_CLOSE_UNDERSCORE \<equiv> 34"

text \<open>
  \<^verbatim>\<open>enum Block : char\<close>: one byte per open block. The scanner adds to the tag
  (\<^verbatim>\<open>Block(TIGHT_LIST_ITEM + extra_indentation)\<close>) and copies tags from and to the
  serialization buffer, so a block is a byte. Whether \<^verbatim>\<open>char\<close> is signed is the
  platform's choice; the model reads it as signed (x86-64). A test of the form
  \<^verbatim>\<open>block >= a && block <= b\<close> with \<open>0 \<le> a \<le> b < 128\<close> has the same value under both
  readings and is written on the byte; the single one-sided test, in
  \<^verbatim>\<open>list_item_indentation\<close>, is written on the signed value.
\<close>

type_synonym Block = "8 word"

abbreviation (input) BLOCK_QUOTE :: Block where "BLOCK_QUOTE \<equiv> 0"
abbreviation (input) INDENTED_CODE_BLOCK :: Block where "INDENTED_CODE_BLOCK \<equiv> 1"
abbreviation (input) TIGHT_LIST_ITEM :: Block where "TIGHT_LIST_ITEM \<equiv> 2"
abbreviation (input) TIGHT_LIST_ITEM_MAX_INDENTATION :: Block
  where "TIGHT_LIST_ITEM_MAX_INDENTATION \<equiv> 8"
abbreviation (input) LOOSE_LIST_ITEM :: Block where "LOOSE_LIST_ITEM \<equiv> 9"
abbreviation (input) LOOSE_LIST_ITEM_MAX_INDENTATION :: Block
  where "LOOSE_LIST_ITEM_MAX_INDENTATION \<equiv> 15"
abbreviation (input) FENCED_CODE_BLOCK_TILDE :: Block where "FENCED_CODE_BLOCK_TILDE \<equiv> 16"
abbreviation (input) FENCED_CODE_BLOCK_BACKTICK :: Block where "FENCED_CODE_BLOCK_BACKTICK \<equiv> 17"

definition is_list_item :: "Block \<Rightarrow> bool" where
  "is_list_item block = (block \<ge> TIGHT_LIST_ITEM \<and> block \<le> LOOSE_LIST_ITEM_MAX_INDENTATION)"

definition list_item_indentation :: "Block \<Rightarrow> 8 word" where
  "list_item_indentation block =
     (if sint block \<le> sint TIGHT_LIST_ITEM_MAX_INDENTATION then block - TIGHT_LIST_ITEM + 2
      else block - LOOSE_LIST_ITEM + 2)"

text \<open>
  The two byte classifiers take a \<^verbatim>\<open>char\<close>; the callers pass the 32-bit lookahead,
  which the call truncates to its low byte.
\<close>

definition is_punctuation :: "8 word \<Rightarrow> bool" where
  "is_punctuation c = ((c \<ge> 33 \<and> c \<le> 47) \<or> (c \<ge> 58 \<and> c \<le> 64)
      \<or> (c \<ge> 91 \<and> c \<le> 96) \<or> (c \<ge> 123 \<and> c \<le> 126))"

definition is_whitespace :: "8 word \<Rightarrow> bool" where
  "is_whitespace c = (c = 32 \<or> c = 9 \<or> c = 10 \<or> c = 13)"

subsection \<open>Scanner state\<close>

record Scanner =
  open_blocks :: "Block list"
  matched :: "8 word"
  indentation :: "8 word"
  column :: "8 word"
  code_span_delimiter_length :: "8 word"
  num_emphasis_delimiters :: "8 word"
  num_emphasis_delimiters_left :: "8 word"
  emphasis_delimiters_is_open :: "8 word"

subsection \<open>Serialization\<close>

abbreviation (input) UINT8_MAX :: nat where "UINT8_MAX \<equiv> 255"

text \<open>
  \<^verbatim>\<open>serialize\<close> writes into the host's buffer from offset 0 and returns the number of
  bytes written. The model returns the bytes written, in order, with that number.
\<close>

definition serialize :: "Scanner \<Rightarrow> 8 word list \<times> 32 word" where
  "serialize s =
     (let i = (7::nat);
          blocks_count = length (open_blocks s);
          blocks_count = (if blocks_count > UINT8_MAX - i then UINT8_MAX - i else blocks_count)
      in ([matched s, indentation s, column s, code_span_delimiter_length s,
           num_emphasis_delimiters s, num_emphasis_delimiters_left s,
           emphasis_delimiters_is_open s] @ take blocks_count (open_blocks s),
          of_nat (i + blocks_count)))"

text \<open>
  \<^verbatim>\<open>deserialize\<close> overwrites every field, so it is a function of the buffer and the
  length alone. The buffer is the list of the bytes the caller owns; a read beyond
  it is the error \<open>Out_Of_Bounds\<close>. \<^verbatim>\<open>length\<close> is \<^verbatim>\<open>unsigned\<close> (32 bits) and
  \<^verbatim>\<open>i\<close> is \<^verbatim>\<open>size_t\<close> (64 bits): \<^verbatim>\<open>length - i\<close> is computed modulo \<open>2 ^ 64\<close>.
  \<^verbatim>\<open>vector::resize\<close> beyond \<^verbatim>\<open>max_size()\<close> throws \<^verbatim>\<open>std::length_error\<close>.
\<close>

datatype error = Out_Of_Bounds | Length_Error

definition vector_max_size :: nat where
  "vector_max_size = 2 ^ 63 - 1"

definition fresh_scanner :: Scanner where
  "fresh_scanner = \<lparr>open_blocks = [], matched = 0, indentation = 0, column = 0,
     code_span_delimiter_length = 0, num_emphasis_delimiters = 0,
     num_emphasis_delimiters_left = 0, emphasis_delimiters_is_open = 0\<rparr>"

definition deserialize_blocks_count :: "32 word \<Rightarrow> 64 word" where
  "deserialize_blocks_count len = ucast len - 7"

definition deserialize :: "8 word list \<Rightarrow> 32 word \<Rightarrow> error + Scanner" where
  "deserialize buffer len =
     (if len > 0 then
        (if length buffer < 7 then Inl Out_Of_Bounds
         else let blocks_count = unat (deserialize_blocks_count len) in
           if blocks_count > vector_max_size then Inl Length_Error
           else if length buffer < 7 + blocks_count then Inl Out_Of_Bounds
           else Inr \<lparr>open_blocks = take blocks_count (drop 7 buffer),
                  matched = buffer ! 0, indentation = buffer ! 1, column = buffer ! 2,
                  code_span_delimiter_length = buffer ! 3,
                  num_emphasis_delimiters = buffer ! 4,
                  num_emphasis_delimiters_left = buffer ! 5,
                  emphasis_delimiters_is_open = buffer ! 6\<rparr>)
      else Inr fresh_scanner)"


subsection \<open>The lexer\<close>

text \<open>
  Modelled from the spec: the lexer handle (\<^verbatim>\<open>TSLexer\<close>, declared in
  \<^verbatim>\<open>tree_sitter/parser.h\<close>) belongs to the host and is not in the repository. The spec
  lists its interface: a lookahead, \<^verbatim>\<open>advance(skip)\<close>, \<^verbatim>\<open>mark_end()\<close>, \<^verbatim>\<open>eof()\<close> and
  the result symbol. The model keeps the input that is still unread (one entry per
  lookahead unit), the number of units consumed, the start of the token (moved by a
  skipping advance), the marked end, and the result symbol. At the end of the input the
  lookahead is 0 and \<^verbatim>\<open>advance\<close> changes nothing.
\<close>

record TSLexer =
  input :: "nat list"
  position :: nat
  token_start :: nat
  token_end :: "nat option"
  result_symbol :: TokenType

definition lookahead :: "TSLexer \<Rightarrow> nat" where
  "lookahead l = (case input l of [] \<Rightarrow> 0 | c # cs \<Rightarrow> c)"

definition eof :: "TSLexer \<Rightarrow> bool" where
  "eof l = (input l = [])"

definition lexer_advance :: "bool \<Rightarrow> TSLexer \<Rightarrow> TSLexer" where
  "lexer_advance skip l =
     (if input l = [] then l
      else l\<lparr>input := tl (input l), position := position l + 1,
             token_start := (if skip then position l + 1 else token_start l)\<rparr>)"

definition mark_end :: "TSLexer \<Rightarrow> TSLexer" where
  "mark_end l = l\<lparr>token_end := Some (position l)\<rparr>"

text \<open>
  Where the token ends once \<^verbatim>\<open>scan\<close> has returned true: at the marked end, or at the
  current position when \<^verbatim>\<open>mark_end\<close> was not called.
\<close>

definition token_end_position :: "TSLexer \<Rightarrow> nat" where
  "token_end_position l = (case token_end l of Some e \<Rightarrow> e | None \<Rightarrow> position l)"

text \<open>The lexer as the host hands it over at the start of a call.\<close>

definition start_lexer :: "nat list \<Rightarrow> TSLexer" where
  "start_lexer cs = \<lparr>input = cs, position = 0, token_start = 0, token_end = None,
     result_symbol = 0\<rparr>"

text \<open>Character codes of the source's character literals.\<close>

abbreviation (input) chr_tab :: nat where "chr_tab \<equiv> 9"
abbreviation (input) chr_lf :: nat where "chr_lf \<equiv> 10"
abbreviation (input) chr_cr :: nat where "chr_cr \<equiv> 13"
abbreviation (input) chr_space :: nat where "chr_space \<equiv> 32"
abbreviation (input) chr_hash :: nat where "chr_hash \<equiv> 35"
abbreviation (input) chr_rparen :: nat where "chr_rparen \<equiv> 41"
abbreviation (input) chr_star :: nat where "chr_star \<equiv> 42"
abbreviation (input) chr_plus :: nat where "chr_plus \<equiv> 43"
abbreviation (input) chr_minus :: nat where "chr_minus \<equiv> 45"
abbreviation (input) chr_dot :: nat where "chr_dot \<equiv> 46"
abbreviation (input) chr_0 :: nat where "chr_0 \<equiv> 48"
abbreviation (input) chr_9 :: nat where "chr_9 \<equiv> 57"
abbreviation (input) chr_equals :: nat where "chr_equals \<equiv> 61"
abbreviation (input) chr_gt :: nat where "chr_gt \<equiv> 62"
abbreviation (input) chr_underscore :: nat where "chr_underscore \<equiv> 95"
abbreviation (input) chr_backtick :: nat where "chr_backtick \<equiv> 96"
abbreviation (input) chr_tilde :: nat where "chr_tilde \<equiv> 126"

subsection \<open>Column-aware advance\<close>

definition advance :: "bool \<Rightarrow> TSLexer \<Rightarrow> Scanner \<Rightarrow> nat \<times> TSLexer \<times> Scanner" where
  "advance skip l s =
     (let size = (if lookahead l = chr_tab
                  then (if unat (column s) mod 4 = 0 then 4 else 4 - unat (column s) mod 4)
                  else 1)
      in (size, lexer_advance skip l, s\<lparr>column := column s + of_nat size\<rparr>))"

lemma advance_shrinks:
  "advance skip l s = (n, l', s') \<Longrightarrow> lookahead l \<noteq> 0 \<Longrightarrow> length (input l') < length (input l)"
  by (auto simp: advance_def lexer_advance_def lookahead_def Let_def split: list.splits)

lemma advance_shrinks_sym:
  "(n, l', s') = advance skip l s \<Longrightarrow> lookahead l \<noteq> 0 \<Longrightarrow> length (input l') < length (input l)"
  by (metis advance_shrinks)

lemma advance_shrinks_marked:
  "(n, l', s') = advance skip (if b then mark_end l else l) s \<Longrightarrow> lookahead l \<noteq> 0
     \<Longrightarrow> length (input l') < length (input l)"
  by (auto simp: advance_def lexer_advance_def lookahead_def mark_end_def Let_def
      split: list.splits if_splits)

subsection \<open>The loops of \<^verbatim>\<open>scan\<close>\<close>

text \<open>
  Every loop of the source advances the lexer while the lookahead is one of a few
  non-zero characters, so it ends with the input at the latest. Counters of type
  \<^verbatim>\<open>size_t\<close> are natural numbers: they count consumed input and cannot wrap.
\<close>

text \<open>\<^verbatim>\<open>while (lexer->lookahead == '`') { advance(lexer, false); level++; }\<close>\<close>

function backtick_loop :: "nat \<Rightarrow> TSLexer \<Rightarrow> Scanner \<Rightarrow> nat \<times> TSLexer \<times> Scanner" where
  "backtick_loop level l s =
     (if lookahead l = chr_backtick
      then (let (size, l1, s1) = advance False l s in backtick_loop (level + 1) l1 s1)
      else (level, l, s))"
  by pat_completeness auto
termination
  by (relation "measure (\<lambda>(level, l, s). length (input l))") (auto dest: advance_shrinks_sym)

declare backtick_loop.simps [simp del]

text \<open>\<^verbatim>\<open>while (lexer->lookahead == '~') { advance(lexer, false); level++; }\<close>\<close>

function tilde_loop :: "nat \<Rightarrow> TSLexer \<Rightarrow> Scanner \<Rightarrow> nat \<times> TSLexer \<times> Scanner" where
  "tilde_loop level l s =
     (if lookahead l = chr_tilde
      then (let (size, l1, s1) = advance False l s in tilde_loop (level + 1) l1 s1)
      else (level, l, s))"
  by pat_completeness auto
termination
  by (relation "measure (\<lambda>(level, l, s). length (input l))") (auto dest: advance_shrinks_sym)

declare tilde_loop.simps [simp del]

text \<open>\<^verbatim>\<open>while (lexer->lookahead == '#' && level <= 6) { advance(lexer, false); level++; }\<close>\<close>

function hash_loop :: "nat \<Rightarrow> TSLexer \<Rightarrow> Scanner \<Rightarrow> nat \<times> TSLexer \<times> Scanner" where
  "hash_loop level l s =
     (if lookahead l = chr_hash \<and> level \<le> 6
      then (let (size, l1, s1) = advance False l s in hash_loop (level + 1) l1 s1)
      else (level, l, s))"
  by pat_completeness auto
termination
  by (relation "measure (\<lambda>(level, l, s). length (input l))") (auto dest: advance_shrinks_sym)

declare hash_loop.simps [simp del]

text \<open>\<^verbatim>\<open>while (lexer->lookahead == '=') { advance(lexer, false); }\<close>\<close>

function equals_loop :: "TSLexer \<Rightarrow> Scanner \<Rightarrow> TSLexer \<times> Scanner" where
  "equals_loop l s =
     (if lookahead l = chr_equals
      then (let (size, l1, s1) = advance False l s in equals_loop l1 s1)
      else (l, s))"
  by pat_completeness auto
termination
  by (relation "measure (\<lambda>(l, s). length (input l))") (auto dest: advance_shrinks_sym)

declare equals_loop.simps [simp del]

text \<open>\<^verbatim>\<open>while (lexer->lookahead == ' ' || lexer->lookahead == '\t') { advance(lexer, true); }\<close>\<close>

function space_skip_loop :: "TSLexer \<Rightarrow> Scanner \<Rightarrow> TSLexer \<times> Scanner" where
  "space_skip_loop l s =
     (if lookahead l = chr_space \<or> lookahead l = chr_tab
      then (let (size, l1, s1) = advance True l s in space_skip_loop l1 s1)
      else (l, s))"
  by pat_completeness auto
termination
  by (relation "measure (\<lambda>(l, s). length (input l))") (auto dest: advance_shrinks_sym)

declare space_skip_loop.simps [simp del]

text \<open>
  \<^verbatim>\<open>while (lexer->lookahead == ' ' || lexer->lookahead == '\t') {
      extra_indentation += advance(lexer, false); }\<close>
\<close>

function space_count_loop :: "nat \<Rightarrow> TSLexer \<Rightarrow> Scanner \<Rightarrow> nat \<times> TSLexer \<times> Scanner" where
  "space_count_loop extra_indentation l s =
     (if lookahead l = chr_space \<or> lookahead l = chr_tab
      then (let (size, l1, s1) = advance False l s
            in space_count_loop (extra_indentation + size) l1 s1)
      else (extra_indentation, l, s))"
  by pat_completeness auto
termination
  by (relation "measure (\<lambda>(e, l, s). length (input l))") (auto dest: advance_shrinks_sym)

declare space_count_loop.simps [simp del]

text \<open>
  \<^verbatim>\<open>while (lexer->lookahead >= '0' && lexer->lookahead <= '9') { digits++; advance(lexer, false); }\<close>
\<close>

function digits_loop :: "nat \<Rightarrow> TSLexer \<Rightarrow> Scanner \<Rightarrow> nat \<times> TSLexer \<times> Scanner" where
  "digits_loop digits l s =
     (if lookahead l \<ge> chr_0 \<and> lookahead l \<le> chr_9
      then (let (size, l1, s1) = advance False l s in digits_loop (digits + 1) l1 s1)
      else (digits, l, s))"
  by pat_completeness auto
termination
  by (relation "measure (\<lambda>(d, l, s). length (input l))") (auto dest: advance_shrinks_sym)

declare digits_loop.simps [simp del]

text \<open>
  The preamble loop:
  \<^verbatim>\<open>for (;;) { if (lookahead == ' ' || lookahead == '\t') { indentation += advance(lexer, true); } else break; }\<close>;
  \<^verbatim>\<open>indentation\<close> is a byte and wraps.
\<close>

function indentation_loop :: "TSLexer \<Rightarrow> Scanner \<Rightarrow> TSLexer \<times> Scanner" where
  "indentation_loop l s =
     (if lookahead l = chr_space \<or> lookahead l = chr_tab
      then (let (size, l1, s1) = advance True l s
            in indentation_loop l1 (s1\<lparr>indentation := indentation s1 + of_nat size\<rparr>))
      else (l, s))"
  by pat_completeness auto
termination
  by (relation "measure (\<lambda>(l, s). length (input l))") (auto dest: advance_shrinks_sym)

declare indentation_loop.simps [simp del]

text \<open>
  The run of an emphasis delimiter:
  \<^verbatim>\<open>while (lexer->lookahead == '*') { num_emphasis_delimiters++; advance(lexer, true); }\<close>;
  the counter is a byte and wraps.
\<close>

function star_run_loop :: "TSLexer \<Rightarrow> Scanner \<Rightarrow> TSLexer \<times> Scanner" where
  "star_run_loop l s =
     (if lookahead l = chr_star
      then (let (size, l1, s1) =
                  advance True l (s\<lparr>num_emphasis_delimiters := num_emphasis_delimiters s + 1\<rparr>)
            in star_run_loop l1 s1)
      else (l, s))"
  by pat_completeness auto
termination
  by (relation "measure (\<lambda>(l, s). length (input l))") (auto dest: advance_shrinks_sym)

declare star_run_loop.simps [simp del]

function underscore_run_loop :: "TSLexer \<Rightarrow> Scanner \<Rightarrow> TSLexer \<times> Scanner" where
  "underscore_run_loop l s =
     (if lookahead l = chr_underscore
      then (let (size, l1, s1) =
                  advance True l (s\<lparr>num_emphasis_delimiters := num_emphasis_delimiters s + 1\<rparr>)
            in underscore_run_loop l1 s1)
      else (l, s))"
  by pat_completeness auto
termination
  by (relation "measure (\<lambda>(l, s). length (input l))") (auto dest: advance_shrinks_sym)

declare underscore_run_loop.simps [simp del]

text \<open>
  The loop of the \<^verbatim>\<open>'-'\<close> case. It carries \<^verbatim>\<open>minus_count\<close>, \<^verbatim>\<open>extra_indentation\<close>,
  \<^verbatim>\<open>whitespace_after_minus\<close> and \<^verbatim>\<open>minus_after_whitespace\<close>, and marks the token end
  before the second minus when whitespace followed the first one.
\<close>

function minus_loop ::
  "bool \<Rightarrow> nat \<Rightarrow> nat \<Rightarrow> bool \<Rightarrow> bool \<Rightarrow> TSLexer \<Rightarrow> Scanner
     \<Rightarrow> (nat \<times> nat \<times> bool) \<times> TSLexer \<times> Scanner" where
  "minus_loop check_block minus_count extra_indentation whitespace_after_minus
       minus_after_whitespace l s =
     (if lookahead l = chr_minus then
        (let l0 = (if minus_count = 1 \<and> extra_indentation \<ge> 1 \<and> \<not> check_block
                   then mark_end l else l);
             (size, l1, s1) = advance False l0 s
         in minus_loop check_block (minus_count + 1) extra_indentation whitespace_after_minus
              whitespace_after_minus l1 s1)
      else if lookahead l = chr_space \<or> lookahead l = chr_tab then
        (let (size, l1, s1) = advance False l s
         in minus_loop check_block minus_count
              (if minus_count = 1 then extra_indentation + size else extra_indentation)
              True minus_after_whitespace l1 s1)
      else ((minus_count, extra_indentation, minus_after_whitespace), l, s))"
  by pat_completeness auto
termination
  by (relation "measure (\<lambda>(cb, m, e, w, a, l, s). length (input l))")
     (auto dest: advance_shrinks_sym advance_shrinks_marked)

declare minus_loop.simps [simp del]

text \<open>The loop of the \<^verbatim>\<open>'*'\<close> case: \<^verbatim>\<open>star_count\<close> and \<^verbatim>\<open>extra_indentation\<close>.\<close>

function star_loop ::
  "bool \<Rightarrow> nat \<Rightarrow> nat \<Rightarrow> TSLexer \<Rightarrow> Scanner \<Rightarrow> (nat \<times> nat) \<times> TSLexer \<times> Scanner" where
  "star_loop check_block star_count extra_indentation l s =
     (if lookahead l = chr_star then
        (let l0 = (if star_count = 1 \<and> extra_indentation \<ge> 1 \<and> \<not> check_block
                   then mark_end l else l);
             (size, l1, s1) = advance False l0 s
         in star_loop check_block (star_count + 1) extra_indentation l1 s1)
      else if lookahead l = chr_space \<or> lookahead l = chr_tab then
        (let (size, l1, s1) = advance False l s
         in star_loop check_block star_count
              (if star_count = 1 then extra_indentation + size else extra_indentation) l1 s1)
      else ((star_count, extra_indentation), l, s))"
  by pat_completeness auto
termination
  by (relation "measure (\<lambda>(cb, m, e, l, s). length (input l))")
     (auto dest: advance_shrinks_sym advance_shrinks_marked)

declare star_loop.simps [simp del]

text \<open>The loop of the \<^verbatim>\<open>'_'\<close> case.\<close>

function underscore_loop :: "nat \<Rightarrow> TSLexer \<Rightarrow> Scanner \<Rightarrow> nat \<times> TSLexer \<times> Scanner" where
  "underscore_loop underscore_count l s =
     (if lookahead l = chr_underscore then
        (let (size, l1, s1) = advance False l s in underscore_loop (underscore_count + 1) l1 s1)
      else if lookahead l = chr_space \<or> lookahead l = chr_tab then
        (let (size, l1, s1) = advance False l s in underscore_loop underscore_count l1 s1)
      else (underscore_count, l, s))"
  by pat_completeness auto
termination
  by (relation "measure (\<lambda>(n, l, s). length (input l))") (auto dest: advance_shrinks_sym)

declare underscore_loop.simps [simp del]


subsection \<open>\<^verbatim>\<open>Scanner::scan\<close>\<close>

text \<open>
  A branch of \<^verbatim>\<open>scan\<close> either returns (\<open>Return\<close>, with the boolean result) or leaves its
  \<^verbatim>\<open>switch\<close> case with \<^verbatim>\<open>break\<close> (\<open>Break\<close>). Both carry the lexer and the scanner as the
  branch left them: a branch that breaks may already have advanced the lexer. The
  diagnostic trace to \<^verbatim>\<open>std::cerr\<close> is not modelled.
\<close>

datatype flow = Break "TSLexer \<times> Scanner" | Return bool "TSLexer \<times> Scanner"

text \<open>
  The close token for the block on top of the stack, and the pop; the source has this
  fragment twice (at the end of the input and when a block fails to match).
\<close>

definition close_symbol :: "Block \<Rightarrow> TokenType" where
  "close_symbol block =
     (if block \<ge> LOOSE_LIST_ITEM \<and> block \<le> LOOSE_LIST_ITEM_MAX_INDENTATION
      then BLOCK_CLOSE_LOOSE else BLOCK_CLOSE)"

definition close_top :: "TSLexer \<Rightarrow> Scanner \<Rightarrow> TSLexer \<times> Scanner" where
  "close_top l s =
     (l\<lparr>result_symbol := close_symbol (last (open_blocks s))\<rparr>,
      s\<lparr>open_blocks := butlast (open_blocks s)\<rparr>)"

paragraph \<open>End of input\<close>

definition scan_eof :: "TSLexer \<Rightarrow> Scanner \<Rightarrow> bool \<times> TSLexer \<times> Scanner" where
  "scan_eof l s =
     (if length (open_blocks s) > 0 then (True, close_top l s) else (False, l, s))"

paragraph \<open>Inline tokens (\<^verbatim>\<open>matched > open_blocks.size()\<close>)\<close>

definition inline_cr :: "(TokenType \<Rightarrow> bool) \<Rightarrow> TSLexer \<Rightarrow> Scanner \<Rightarrow> flow" where
  "inline_cr valid_symbols l s =
     (if valid_symbols LINE_ENDING then
        (let (size1, l1, s1) = advance True l s;
             (l2, s2) = (if lookahead l1 = chr_lf
                         then (let (size2, l', s') = advance True l1 s1 in (l', s'))
                         else (l1, s1));
             (size3, l3, s3) = advance True l2 s2
         in Return True (l3\<lparr>result_symbol := LINE_ENDING\<rparr>,
                         s3\<lparr>matched := 0, indentation := 0, column := 0\<rparr>))
      else Break (l, s))"

definition inline_lf :: "(TokenType \<Rightarrow> bool) \<Rightarrow> TSLexer \<Rightarrow> Scanner \<Rightarrow> flow" where
  "inline_lf valid_symbols l s =
     (if valid_symbols LINE_ENDING then
        (let (size1, l1, s1) = advance True l s
         in Return True (l1\<lparr>result_symbol := LINE_ENDING\<rparr>,
                         s1\<lparr>matched := 0, indentation := 0, column := 0\<rparr>))
      else Break (l, s))"

definition inline_backtick :: "(TokenType \<Rightarrow> bool) \<Rightarrow> TSLexer \<Rightarrow> Scanner \<Rightarrow> flow" where
  "inline_backtick valid_symbols l s =
     (if valid_symbols CODE_SPAN_START \<or> valid_symbols CODE_SPAN_CLOSE then
        (let (level, l1, s1) = backtick_loop 0 l s
         in if level = unat (code_span_delimiter_length s1) \<and> valid_symbols CODE_SPAN_CLOSE
            then Return True (l1\<lparr>result_symbol := CODE_SPAN_CLOSE\<rparr>, s1)
            else if valid_symbols CODE_SPAN_START
            then Return True (l1\<lparr>result_symbol := CODE_SPAN_START\<rparr>,
                              s1\<lparr>code_span_delimiter_length := of_nat level\<rparr>)
            else Break (l1, s1))
      else Break (l, s))"

text \<open>
  One delimiter of a run whose head has been seen
  (\<^verbatim>\<open>num_emphasis_delimiters_left > 0\<close>): the same code for \<^verbatim>\<open>'*'\<close> and \<^verbatim>\<open>'_'\<close>, with
  the case's own pair of tokens.
\<close>

definition emphasis_next ::
  "TokenType \<Rightarrow> TokenType \<Rightarrow> (TokenType \<Rightarrow> bool) \<Rightarrow> TSLexer \<Rightarrow> Scanner \<Rightarrow> flow" where
  "emphasis_next open_tok close_tok valid_symbols l s =
     (if emphasis_delimiters_is_open s \<noteq> 0 \<and> valid_symbols open_tok then
        (let (size1, l1, s1) = advance True l s
         in Return True (l1\<lparr>result_symbol := open_tok\<rparr>,
              s1\<lparr>num_emphasis_delimiters_left := num_emphasis_delimiters_left s1 - 1\<rparr>))
      else if valid_symbols close_tok then
        (let (size1, l1, s1) = advance True l s
         in Return True (l1\<lparr>result_symbol := close_tok\<rparr>,
              s1\<lparr>num_emphasis_delimiters_left := num_emphasis_delimiters_left s1 - 1\<rparr>))
      else Break (l, s))"

definition inline_star :: "(TokenType \<Rightarrow> bool) \<Rightarrow> TSLexer \<Rightarrow> Scanner \<Rightarrow> flow" where
  "inline_star valid_symbols l s =
     (if num_emphasis_delimiters_left s > 0 then
        emphasis_next EMPHASIS_OPEN_STAR EMPHASIS_CLOSE_STAR valid_symbols l s
      else if valid_symbols EMPHASIS_OPEN_STAR \<or> valid_symbols EMPHASIS_CLOSE_STAR then
        (let (size1, l1, s1) = advance True l s;
             l2 = mark_end l1;
             (l3, s3) = star_run_loop l2 (s1\<lparr>num_emphasis_delimiters := 1\<rparr>);
             s4 = s3\<lparr>num_emphasis_delimiters_left := num_emphasis_delimiters s3\<rparr>;
             c = (of_nat (lookahead l3) :: 8 word)
         in if valid_symbols EMPHASIS_CLOSE_STAR \<and> \<not> valid_symbols LAST_TOKEN_WHITESPACE \<and>
               (\<not> valid_symbols LAST_TOKEN_PUNCTUATION \<or> is_punctuation c \<or> is_whitespace c)
            then Return True (l3\<lparr>result_symbol := EMPHASIS_CLOSE_STAR\<rparr>,
                   s4\<lparr>emphasis_delimiters_is_open := 0,
                      num_emphasis_delimiters_left := num_emphasis_delimiters_left s4 - 1\<rparr>)
            else if \<not> is_whitespace c \<and>
               (\<not> is_punctuation c \<or> valid_symbols LAST_TOKEN_PUNCTUATION
                  \<or> valid_symbols LAST_TOKEN_WHITESPACE)
            then Return True (l3\<lparr>result_symbol := EMPHASIS_OPEN_STAR\<rparr>,
                   s4\<lparr>emphasis_delimiters_is_open := 1,
                      num_emphasis_delimiters_left := num_emphasis_delimiters_left s4 - 1\<rparr>)
            else Break (l3, s4))
      else Break (l, s))"

definition inline_underscore :: "(TokenType \<Rightarrow> bool) \<Rightarrow> TSLexer \<Rightarrow> Scanner \<Rightarrow> flow" where
  "inline_underscore valid_symbols l s =
     (if num_emphasis_delimiters_left s > 0 then
        emphasis_next EMPHASIS_OPEN_UNDERSCORE EMPHASIS_CLOSE_UNDERSCORE valid_symbols l s
      else if valid_symbols EMPHASIS_OPEN_UNDERSCORE \<or> valid_symbols EMPHASIS_CLOSE_UNDERSCORE
      then
        (let (size1, l1, s1) = advance True l s;
             l2 = mark_end l1;
             (l3, s3) = underscore_run_loop l2 (s1\<lparr>num_emphasis_delimiters := 1\<rparr>);
             s4 = s3\<lparr>num_emphasis_delimiters_left := num_emphasis_delimiters s3\<rparr>;
             c = (of_nat (lookahead l3) :: 8 word);
             right_flanking = (\<not> valid_symbols LAST_TOKEN_WHITESPACE \<and>
               (\<not> valid_symbols LAST_TOKEN_PUNCTUATION \<or> is_punctuation c \<or> is_whitespace c));
             left_flanking = (\<not> is_whitespace c \<and>
               (\<not> is_punctuation c \<or> valid_symbols LAST_TOKEN_PUNCTUATION
                  \<or> valid_symbols LAST_TOKEN_WHITESPACE))
         in if valid_symbols EMPHASIS_CLOSE_UNDERSCORE \<and> right_flanking \<and>
               (\<not> left_flanking \<or> is_punctuation c)
            then Return True (l3\<lparr>result_symbol := EMPHASIS_CLOSE_UNDERSCORE\<rparr>,
                   s4\<lparr>emphasis_delimiters_is_open := 0,
                      num_emphasis_delimiters_left := num_emphasis_delimiters_left s4 - 1\<rparr>)
            else if left_flanking \<and> (\<not> right_flanking \<or> valid_symbols LAST_TOKEN_PUNCTUATION)
            then Return True (l3\<lparr>result_symbol := EMPHASIS_OPEN_UNDERSCORE\<rparr>,
                   s4\<lparr>emphasis_delimiters_is_open := 1,
                      num_emphasis_delimiters_left := num_emphasis_delimiters_left s4 - 1\<rparr>)
            else Break (l3, s4))
      else Break (l, s))"

definition scan_inline ::
  "(TokenType \<Rightarrow> bool) \<Rightarrow> TSLexer \<Rightarrow> Scanner \<Rightarrow> bool \<times> TSLexer \<times> Scanner" where
  "scan_inline valid_symbols l s =
     (if valid_symbols VIRTUAL_SPACE \<and> indentation s > 0 then
        (True, l\<lparr>result_symbol := VIRTUAL_SPACE\<rparr>, s\<lparr>indentation := indentation s - 1\<rparr>)
      else
        (case (if lookahead l = chr_cr then inline_cr valid_symbols l s
               else if lookahead l = chr_lf then inline_lf valid_symbols l s
               else if lookahead l = chr_backtick then inline_backtick valid_symbols l s
               else if lookahead l = chr_star then inline_star valid_symbols l s
               else if lookahead l = chr_underscore then inline_underscore valid_symbols l s
               else Break (l, s))
         of Return r st \<Rightarrow> (r, st)
          | Break st \<Rightarrow> (False, st)))"


paragraph \<open>Indentation preamble\<close>

definition scan_indentation :: "TSLexer \<Rightarrow> Scanner \<Rightarrow> bool \<times> TSLexer \<times> Scanner" where
  "scan_indentation l s =
     (let (l1, s1) = indentation_loop l s
      in (True, l1\<lparr>result_symbol := INDENTATION\<rparr>, s1))"

paragraph \<open>Indented code block: continuation and start\<close>

definition scan_indented ::
  "(TokenType \<Rightarrow> bool) \<Rightarrow> bool \<Rightarrow> bool \<Rightarrow> TSLexer \<Rightarrow> Scanner \<Rightarrow> flow" where
  "scan_indented valid_symbols check_block matching l s =
     (if (valid_symbols INDENTED_CHUNK_START \<and> \<not> matching) \<or>
         (valid_symbols BLOCK_CONTINUATION \<and> matching \<and>
          open_blocks s ! unat (matched s) = INDENTED_CODE_BLOCK)
      then
        (if indentation s \<ge> 4 \<and> lookahead l \<noteq> chr_lf \<and> lookahead l \<noteq> chr_cr then
           (if matching then
              (if \<not> check_block
               then Return True (l\<lparr>result_symbol := BLOCK_CONTINUATION\<rparr>,
                      s\<lparr>indentation := indentation s - 4, matched := matched s + 2\<rparr>)
               else Return True (l, s))
            else if \<not> valid_symbols LAZY_CONTINUATION then
              (if \<not> check_block
               then Return True (l\<lparr>result_symbol := INDENTED_CHUNK_START\<rparr>,
                      s\<lparr>open_blocks := open_blocks s @ [INDENTED_CODE_BLOCK],
                        indentation := indentation s - 4, matched := matched s + 2\<rparr>)
               else Return True (l, s))
            else Break (l, s))
         else Break (l, s))
      else Break (l, s))"

paragraph \<open>List item continuation\<close>

definition scan_list_item ::
  "(TokenType \<Rightarrow> bool) \<Rightarrow> bool \<Rightarrow> TSLexer \<Rightarrow> Scanner \<Rightarrow> flow" where
  "scan_list_item valid_symbols matching l s =
     (if valid_symbols BLOCK_CONTINUATION \<and> matching \<and>
         is_list_item (open_blocks s ! unat (matched s))
      then
        (if indentation s \<ge> list_item_indentation (open_blocks s ! unat (matched s)) then
           Return True (l\<lparr>result_symbol := BLOCK_CONTINUATION\<rparr>,
             s\<lparr>indentation :=
                  indentation s - list_item_indentation (open_blocks s ! unat (matched s)),
               matched := matched s + 1\<rparr>)
         else if lookahead l = chr_lf \<or> lookahead l = chr_cr then
           Return True (l\<lparr>result_symbol := BLOCK_CONTINUATION\<rparr>,
             s\<lparr>indentation := 0, matched := matched s + 1\<rparr>)
         else Break (l, s))
      else Break (l, s))"

paragraph \<open>The cases of the block \<^verbatim>\<open>switch\<close>\<close>

text \<open>The body of the loop over the stack that a blank line runs.\<close>

definition loosen :: "Block \<Rightarrow> Block" where
  "loosen block =
     (if block \<ge> TIGHT_LIST_ITEM \<and> block \<le> TIGHT_LIST_ITEM_MAX_INDENTATION
      then block + (LOOSE_LIST_ITEM - TIGHT_LIST_ITEM) else block)"

definition block_blank_line ::
  "(TokenType \<Rightarrow> bool) \<Rightarrow> bool \<Rightarrow> bool \<Rightarrow> TSLexer \<Rightarrow> Scanner \<Rightarrow> flow" where
  "block_blank_line valid_symbols check_block matching l s =
     (if valid_symbols BLANK_LINE \<and> \<not> matching then
        (if \<not> check_block
         then Return True (l\<lparr>result_symbol := BLANK_LINE\<rparr>,
                s\<lparr>matched := matched s + 1, open_blocks := map loosen (open_blocks s)\<rparr>)
         else Return True (l, s))
      else Break (l, s))"

definition block_quote ::
  "(TokenType \<Rightarrow> bool) \<Rightarrow> bool \<Rightarrow> bool \<Rightarrow> TSLexer \<Rightarrow> Scanner \<Rightarrow> flow" where
  "block_quote valid_symbols check_block matching l s =
     (if (valid_symbols BLOCK_QUOTE_START \<and> \<not> matching) \<or>
         (valid_symbols BLOCK_CONTINUATION \<and> matching \<and>
          open_blocks s ! unat (matched s) = BLOCK_QUOTE)
      then
        (if \<not> check_block then
           (let (size1, l1, s1) = advance False l s;
                s2 = s1\<lparr>indentation := 0\<rparr>;
                (l3, s3) = (if lookahead l1 = chr_space \<or> lookahead l1 = chr_tab
                            then (let (size2, l', s') = advance True l1 s2
                                  in (l', s'\<lparr>indentation := indentation s' + of_nat (size2 - 1)\<rparr>))
                            else (l1, s2))
            in if matching
               then Return True (l3\<lparr>result_symbol := BLOCK_CONTINUATION\<rparr>,
                      s3\<lparr>matched := matched s3 + 1\<rparr>)
               else Return True (l3\<lparr>result_symbol := BLOCK_QUOTE_START\<rparr>,
                      s3\<lparr>open_blocks := open_blocks s3 @ [BLOCK_QUOTE],
                         matched := matched s3 + 1\<rparr>))
         else Return True (l, s))
      else Break (l, s))"

definition block_tilde ::
  "(TokenType \<Rightarrow> bool) \<Rightarrow> bool \<Rightarrow> bool \<Rightarrow> TSLexer \<Rightarrow> Scanner \<Rightarrow> flow" where
  "block_tilde valid_symbols check_block matching l s =
     (if (\<not> matching \<and> valid_symbols FENCED_CODE_BLOCK_START) \<or>
         (matching \<and> valid_symbols BLOCK_CLOSE \<and>
          open_blocks s ! unat (matched s) = FENCED_CODE_BLOCK_TILDE)
      then
        (let l0 = (if \<not> check_block then mark_end l else l);
             (level, l1, s1) = tilde_loop 0 l0 s
         in if matching then
              (if level \<ge> unat (code_span_delimiter_length s1) \<and>
                  (lookahead l1 = chr_lf \<or> lookahead l1 = chr_cr)
               then Return True (mark_end (l1\<lparr>result_symbol := BLOCK_CLOSE\<rparr>),
                      s1\<lparr>open_blocks := butlast (open_blocks s1),
                         matched := matched s1 + 1, indentation := 0\<rparr>)
               else Break (l1, s1))
            else
              (if level \<ge> 3 then
                 (if \<not> check_block
                  then Return True (mark_end (l1\<lparr>result_symbol := FENCED_CODE_BLOCK_START\<rparr>),
                         s1\<lparr>open_blocks := open_blocks s1 @ [FENCED_CODE_BLOCK_TILDE],
                            code_span_delimiter_length := of_nat level,
                            matched := matched s1 + 2, indentation := 0\<rparr>)
                  else Return True (l1, s1))
               else Break (l1, s1)))
      else Break (l, s))"

definition block_backtick ::
  "(TokenType \<Rightarrow> bool) \<Rightarrow> bool \<Rightarrow> bool \<Rightarrow> TSLexer \<Rightarrow> Scanner \<Rightarrow> flow" where
  "block_backtick valid_symbols check_block matching l s =
     (if (\<not> matching \<and> valid_symbols FENCED_CODE_BLOCK_START) \<or>
         (matching \<and> valid_symbols BLOCK_CLOSE \<and>
          open_blocks s ! unat (matched s) = FENCED_CODE_BLOCK_BACKTICK)
      then
        (let l0 = (if \<not> check_block then mark_end l else l);
             (level, l1, s1) = backtick_loop 0 l0 s
         in if matching then
              (if level \<ge> unat (code_span_delimiter_length s1)
               then Return True (mark_end (l1\<lparr>result_symbol := BLOCK_CLOSE\<rparr>),
                      s1\<lparr>open_blocks := butlast (open_blocks s1),
                         matched := matched s1 + 1, indentation := 0\<rparr>)
               else Break (l1, s1))
            else
              (if level \<ge> 3 \<and> (lookahead l1 = chr_lf \<or> lookahead l1 = chr_cr) then
                 (if \<not> check_block
                  then Return True (mark_end (l1\<lparr>result_symbol := FENCED_CODE_BLOCK_START\<rparr>),
                         s1\<lparr>open_blocks := open_blocks s1 @ [FENCED_CODE_BLOCK_BACKTICK],
                            code_span_delimiter_length := of_nat level,
                            matched := matched s1 + 2, indentation := 0\<rparr>)
                  else Return True (l1, s1))
               else Break (l1, s1)))
      else Break (l, s))"

text \<open>
  The case is entered on a \<^verbatim>\<open>'#'\<close>, so the loop runs at least once and
  \<^verbatim>\<open>level - 1\<close> does not go below zero.
\<close>

definition block_atx ::
  "(TokenType \<Rightarrow> bool) \<Rightarrow> bool \<Rightarrow> bool \<Rightarrow> TSLexer \<Rightarrow> Scanner \<Rightarrow> flow" where
  "block_atx valid_symbols check_block matching l s =
     (if valid_symbols ATX_H1_MARKER \<and> indentation s \<le> 3 \<and> \<not> matching then
        (let l0 = (if \<not> check_block then mark_end l else l);
             (level, l1, s1) = hash_loop 0 l0 s
         in if level \<le> 6 \<and> (lookahead l1 = chr_space \<or> lookahead l1 = chr_tab \<or>
                              lookahead l1 = chr_lf \<or> lookahead l1 = chr_cr)
            then
              (if \<not> check_block
               then Return True (mark_end (l1\<lparr>result_symbol := ATX_H1_MARKER + (level - 1)\<rparr>),
                      s1\<lparr>matched := matched s1 + 1, indentation := 0\<rparr>)
               else Return True (l1, s1))
            else Break (l1, s1))
      else Break (l, s))"

definition block_equals ::
  "(TokenType \<Rightarrow> bool) \<Rightarrow> bool \<Rightarrow> bool \<Rightarrow> TSLexer \<Rightarrow> Scanner \<Rightarrow> flow" where
  "block_equals valid_symbols check_block matching l s =
     (if \<not> check_block \<and> valid_symbols SETEXT_H1_UNDERLINE \<and> \<not> matching then
        (let l0 = mark_end l;
             (l1, s1) = equals_loop l0 s;
             (l2, s2) = space_skip_loop l1 s1
         in if lookahead l2 = chr_lf \<or> lookahead l2 = chr_cr
            then Return True (mark_end (l2\<lparr>result_symbol := SETEXT_H1_UNDERLINE\<rparr>),
                   s2\<lparr>matched := matched s2 + 1\<rparr>)
            else Break (l2, s2))
      else Break (l, s))"

text \<open>
  Opening a list item; the source repeats this fragment in the four list marker cases.
  \<^verbatim>\<open>extra_indentation\<close> is at least 1 wherever it runs.
\<close>

definition open_list_item :: "nat \<Rightarrow> Scanner \<Rightarrow> Scanner" where
  "open_list_item extra_indentation s =
     (let extra_indentation = extra_indentation - 1;
          (extra_indentation, s1) =
             (if extra_indentation \<le> 3
              then (extra_indentation + unat (indentation s), s\<lparr>indentation := 0\<rparr>)
              else (unat (indentation s), s\<lparr>indentation := of_nat extra_indentation\<rparr>))
      in s1\<lparr>open_blocks := open_blocks s1 @ [of_nat (unat TIGHT_LIST_ITEM + extra_indentation)],
            matched := matched s1 + 1\<rparr>)"

definition block_plus ::
  "(TokenType \<Rightarrow> bool) \<Rightarrow> bool \<Rightarrow> bool \<Rightarrow> TSLexer \<Rightarrow> Scanner \<Rightarrow> flow" where
  "block_plus valid_symbols check_block matching l s =
     (if \<not> matching \<and> indentation s \<le> 3 \<and> valid_symbols LIST_MARKER_PLUS then
        (let l0 = (if \<not> check_block then mark_end l else l);
             (size1, l1, s1) = advance False l0 s;
             (extra_indentation, l2, s2) = space_count_loop 0 l1 s1
         in if extra_indentation \<ge> 1 then
              (if check_block then Return True (l2, s2)
               else Return True (mark_end (l2\<lparr>result_symbol := LIST_MARKER_PLUS\<rparr>),
                      open_list_item extra_indentation s2))
            else Break (l2, s2))
      else Break (l, s))"

definition block_digits ::
  "(TokenType \<Rightarrow> bool) \<Rightarrow> bool \<Rightarrow> bool \<Rightarrow> TSLexer \<Rightarrow> Scanner \<Rightarrow> flow" where
  "block_digits valid_symbols check_block matching l s =
     (if \<not> matching \<and> indentation s \<le> 3 \<and>
         (valid_symbols LIST_MARKER_PLUS \<or> valid_symbols LIST_MARKER_PARENTHETHIS \<or>
          valid_symbols LIST_MARKER_DOT)
      then
        (let l0 = (if \<not> check_block then mark_end l else l);
             (digits, l1, s1) = digits_loop 0 l0 s
         in if digits \<ge> 1 \<and> digits \<le> 9 then
              (let (success, l3, s3) =
                     (if lookahead l1 = chr_dot
                      then (let (size1, l2, s2) = advance False l1 s1
                            in (True, l2\<lparr>result_symbol := LIST_MARKER_DOT\<rparr>, s2))
                      else if lookahead l1 = chr_rparen
                      then (let (size1, l2, s2) = advance False l1 s1
                            in (True, l2\<lparr>result_symbol := LIST_MARKER_PARENTHETHIS\<rparr>, s2))
                      else (False, l1, s1))
               in if success then
                    (let (extra_indentation, l4, s4) = space_count_loop 0 l3 s3
                     in if extra_indentation \<ge> 1 then
                          (if check_block then Return True (l4, s4)
                           else Return True (mark_end l4, open_list_item extra_indentation s4))
                        else Break (l4, s4))
                  else Break (l3, s3))
            else Break (l1, s1))
      else Break (l, s))"

definition block_minus ::
  "(TokenType \<Rightarrow> bool) \<Rightarrow> bool \<Rightarrow> bool \<Rightarrow> TSLexer \<Rightarrow> Scanner \<Rightarrow> flow" where
  "block_minus valid_symbols check_block matching l s =
     (if \<not> matching \<and> indentation s \<le> 3 \<and>
         (valid_symbols LIST_MARKER_MINUS \<or> valid_symbols SETEXT_H2_UNDERLINE \<or>
          valid_symbols SETEXT_H2_UNDERLINE_OR_THEMATIC_BREAK \<or> valid_symbols THEMATIC_BREAK)
      then
        (let l0 = (if \<not> check_block then mark_end l else l);
             ((minus_count, extra_indentation, minus_after_whitespace), l1, s1) =
                minus_loop check_block 0 0 False False l0 s;
             line_end = (lookahead l1 = chr_lf \<or> lookahead l1 = chr_cr);
             extra_indentation = (if minus_count = 1 \<and> line_end then 1 else extra_indentation);
             thematic_break = (minus_count \<ge> 3 \<and> line_end);
             underline = (minus_count \<ge> 1 \<and> \<not> minus_after_whitespace \<and> line_end);
             list_marker_minus = (minus_count \<ge> 1 \<and> extra_indentation \<ge> 1)
         in if check_block then
              (if thematic_break \<or> underline \<or> list_marker_minus then Return True (l1, s1)
               else Break (l1, s1))
            else if valid_symbols THEMATIC_BREAK \<and> thematic_break \<and> \<not> underline then
              Return True (mark_end (l1\<lparr>result_symbol := THEMATIC_BREAK\<rparr>),
                s1\<lparr>indentation := 0, matched := matched s1 + 1\<rparr>)
            else if valid_symbols LIST_MARKER_MINUS \<and> list_marker_minus then
              Return True ((if minus_count = 1 then mark_end l1 else l1)
                             \<lparr>result_symbol := LIST_MARKER_MINUS\<rparr>,
                open_list_item extra_indentation s1)
            else if valid_symbols SETEXT_H2_UNDERLINE_OR_THEMATIC_BREAK \<and> thematic_break \<and>
                    underline then
              Return True (mark_end (l1\<lparr>result_symbol := SETEXT_H2_UNDERLINE_OR_THEMATIC_BREAK\<rparr>),
                s1\<lparr>indentation := 0, matched := matched s1 + 1\<rparr>)
            else if valid_symbols SETEXT_H2_UNDERLINE \<and> underline then
              Return True (mark_end (l1\<lparr>result_symbol := SETEXT_H2_UNDERLINE\<rparr>),
                s1\<lparr>indentation := 0, matched := matched s1 + 1\<rparr>)
            else Break (l1, s1))
      else Break (l, s))"

definition block_star ::
  "(TokenType \<Rightarrow> bool) \<Rightarrow> bool \<Rightarrow> bool \<Rightarrow> TSLexer \<Rightarrow> Scanner \<Rightarrow> flow" where
  "block_star valid_symbols check_block matching l s =
     (if \<not> matching \<and> indentation s \<le> 3 \<and>
         (valid_symbols LIST_MARKER_STAR \<or> valid_symbols THEMATIC_BREAK)
      then
        (let l0 = (if \<not> check_block then mark_end l else l);
             ((star_count, extra_indentation), l1, s1) = star_loop check_block 0 0 l0 s;
             line_end = (lookahead l1 = chr_lf \<or> lookahead l1 = chr_cr);
             extra_indentation = (if star_count = 1 \<and> line_end then 1 else extra_indentation);
             thematic_break = (star_count \<ge> 3 \<and> line_end);
             list_marker_star = (star_count \<ge> 1 \<and> extra_indentation \<ge> 1)
         in if check_block then
              (if thematic_break \<or> list_marker_star then Return True (l1, s1)
               else Break (l1, s1))
            else if valid_symbols THEMATIC_BREAK \<and> thematic_break then
              Return True (mark_end (l1\<lparr>result_symbol := THEMATIC_BREAK\<rparr>),
                s1\<lparr>indentation := 0, matched := matched s1 + 1\<rparr>)
            else if valid_symbols LIST_MARKER_STAR \<and> list_marker_star then
              Return True ((if star_count = 1 then mark_end l1 else l1)
                             \<lparr>result_symbol := LIST_MARKER_STAR\<rparr>,
                open_list_item extra_indentation s1)
            else Break (l1, s1))
      else Break (l, s))"

definition block_underscore ::
  "(TokenType \<Rightarrow> bool) \<Rightarrow> bool \<Rightarrow> bool \<Rightarrow> TSLexer \<Rightarrow> Scanner \<Rightarrow> flow" where
  "block_underscore valid_symbols check_block matching l s =
     (if \<not> matching \<and> indentation s \<le> 3 \<and> valid_symbols THEMATIC_BREAK then
        (let l0 = (if \<not> check_block then mark_end l else l);
             (underscore_count, l1, s1) = underscore_loop 0 l0 s;
             line_end = (lookahead l1 = chr_lf \<or> lookahead l1 = chr_cr)
         in if underscore_count \<ge> 3 \<and> line_end then
              (if \<not> check_block
               then Return True (mark_end (l1\<lparr>result_symbol := THEMATIC_BREAK\<rparr>),
                      s1\<lparr>indentation := 0, matched := matched s1 + 1\<rparr>)
               else Return True (l1, s1))
            else Break (l1, s1))
      else Break (l, s))"

definition block_switch ::
  "(TokenType \<Rightarrow> bool) \<Rightarrow> bool \<Rightarrow> bool \<Rightarrow> TSLexer \<Rightarrow> Scanner \<Rightarrow> flow" where
  "block_switch valid_symbols check_block matching l s =
     (if lookahead l = chr_lf \<or> lookahead l = chr_cr
        then block_blank_line valid_symbols check_block matching l s
      else if lookahead l = chr_gt then block_quote valid_symbols check_block matching l s
      else if lookahead l = chr_tilde then block_tilde valid_symbols check_block matching l s
      else if lookahead l = chr_backtick
        then block_backtick valid_symbols check_block matching l s
      else if lookahead l = chr_hash then block_atx valid_symbols check_block matching l s
      else if lookahead l = chr_equals then block_equals valid_symbols check_block matching l s
      else if lookahead l = chr_plus then block_plus valid_symbols check_block matching l s
      else if lookahead l \<ge> chr_0 \<and> lookahead l \<le> chr_9
        then block_digits valid_symbols check_block matching l s
      else if lookahead l = chr_minus then block_minus valid_symbols check_block matching l s
      else if lookahead l = chr_star then block_star valid_symbols check_block matching l s
      else if lookahead l = chr_underscore
        then block_underscore valid_symbols check_block matching l s
      else Break (l, s))"


paragraph \<open>After the \<^verbatim>\<open>switch\<close>\<close>

text \<open>
  \<open>probe\<close> stands for the recursive call \<^verbatim>\<open>scan(lexer, valid_symbols, true)\<close>. The
  call works on the same lexer and scanner objects, so what it changes stays changed.
  After it, the source reads \<^verbatim>\<open>open_blocks[open_blocks.size() - 1]\<close> and pops without
  a check; on an empty stack that is undefined behaviour, the result \<open>None\<close>.
\<close>

definition close_top_checked ::
  "TSLexer \<Rightarrow> Scanner \<Rightarrow> (bool \<times> TSLexer \<times> Scanner) option" where
  "close_top_checked l s =
     (if open_blocks s = [] then None else Some (True, close_top l s))"

definition scan_tail ::
  "(TSLexer \<Rightarrow> Scanner \<Rightarrow> (bool \<times> TSLexer \<times> Scanner) option) \<Rightarrow> (TokenType \<Rightarrow> bool)
     \<Rightarrow> bool \<Rightarrow> bool \<Rightarrow> TSLexer \<Rightarrow> Scanner \<Rightarrow> (bool \<times> TSLexer \<times> Scanner) option" where
  "scan_tail probe valid_symbols check_block matching l s =
     (if \<not> check_block \<and> matching \<and> valid_symbols BLOCK_CONTINUATION \<and>
         (open_blocks s ! unat (matched s) = FENCED_CODE_BLOCK_TILDE \<or>
          open_blocks s ! unat (matched s) = FENCED_CODE_BLOCK_BACKTICK)
      then Some (True, l\<lparr>result_symbol := BLOCK_CONTINUATION\<rparr>,
                 s\<lparr>matched := matched s + 2, indentation := 0\<rparr>)
      else if matching then
        (let l1 = mark_end l
         in if valid_symbols LAZY_CONTINUATION then
              (case probe l1 s of
                 None \<Rightarrow> None
               | Some (r, l2, s2) \<Rightarrow>
                   if \<not> r
                   then Some (True, l2\<lparr>result_symbol := LAZY_CONTINUATION\<rparr>,
                          s2\<lparr>indentation := 0,
                             matched := of_nat (length (open_blocks s2) + 1)\<rparr>)
                   else close_top_checked l2 s2)
            else close_top_checked l1 s)
      else if \<not> check_block then
        Some (True, l\<lparr>result_symbol := MATCHING_DONE\<rparr>, s\<lparr>matched := matched s + 1\<rparr>)
      else Some (False, l, s))"

paragraph \<open>The whole function\<close>

definition scan_body ::
  "(TSLexer \<Rightarrow> Scanner \<Rightarrow> (bool \<times> TSLexer \<times> Scanner) option) \<Rightarrow> (TokenType \<Rightarrow> bool)
     \<Rightarrow> bool \<Rightarrow> TSLexer \<Rightarrow> Scanner \<Rightarrow> (bool \<times> TSLexer \<times> Scanner) option" where
  "scan_body probe valid_symbols check_block l s =
     (if eof l then Some (scan_eof l s)
      else if unat (matched s) > length (open_blocks s) then Some (scan_inline valid_symbols l s)
      else if valid_symbols INDENTATION \<and> (lookahead l = chr_space \<or> lookahead l = chr_tab)
        then Some (scan_indentation l s)
      else
        (let matching = (\<not> check_block \<and> unat (matched s) < length (open_blocks s))
         in case scan_indented valid_symbols check_block matching l s of
              Return r st \<Rightarrow> Some (r, st)
            | Break (l1, s1) \<Rightarrow>
                (case scan_list_item valid_symbols matching l1 s1 of
                   Return r st \<Rightarrow> Some (r, st)
                 | Break (l2, s2) \<Rightarrow>
                     (case block_switch valid_symbols check_block matching l2 s2 of
                        Return r st \<Rightarrow> Some (r, st)
                      | Break (l3, s3) \<Rightarrow>
                          scan_tail probe valid_symbols check_block matching l3 s3))))"

text \<open>
  \<^verbatim>\<open>scan\<close> calls itself only with \<^verbatim>\<open>check_block = true\<close>, and only when \<^verbatim>\<open>matching\<close>
  holds, which needs \<^verbatim>\<open>check_block = false\<close>: the recursion is one level deep. The
  probe is the body with a recursive call that is never reached, and \<open>scan_unfold\<close>
  below recovers the recursive equation of the source.
\<close>

definition scan ::
  "(TokenType \<Rightarrow> bool) \<Rightarrow> bool \<Rightarrow> TSLexer \<Rightarrow> Scanner \<Rightarrow> (bool \<times> TSLexer \<times> Scanner) option"
  where
  "scan valid_symbols check_block l s =
     (if check_block then scan_body (\<lambda>l s. None) valid_symbols True l s
      else scan_body (scan_body (\<lambda>l s. None) valid_symbols True) valid_symbols False l s)"

text \<open>The entry point \<^verbatim>\<open>tree_sitter_markdown_external_scanner_scan\<close>.\<close>

definition external_scanner_scan ::
  "(TokenType \<Rightarrow> bool) \<Rightarrow> TSLexer \<Rightarrow> Scanner \<Rightarrow> (bool \<times> TSLexer \<times> Scanner) option" where
  "external_scanner_scan valid_symbols l s = scan valid_symbols False l s"

section \<open>Properties\<close>

subsection \<open>Signed and unsigned block tags\<close>

text \<open>
  On the tags of list items the signed test of \<^verbatim>\<open>list_item_indentation\<close> is the test
  on the byte, so there the reading of \<^verbatim>\<open>char\<close> makes no difference.
\<close>

lemma sint_small:
  fixes b :: "8 word"
  assumes "b \<le> 15"
  shows "sint b = uint b"
proof -
  have "uint b \<le> 15"
    using assms by (simp add: word_le_def)
  then have lt: "uint b < 2 ^ 7"
    by simp
  have ge: "- (2 ^ 7) \<le> uint b"
    using order_trans [of "- (2 ^ 7)" 0 "uint b"] by simp
  have "signed_take_bit 7 (uint b) = uint b"
    using ge lt by (rule signed_take_bit_int_eq_self)
  then show ?thesis
    by (simp add: sint_uint)
qed

lemma list_item_indentation_unsigned:
  assumes "is_list_item block"
  shows "list_item_indentation block =
     (if block \<le> TIGHT_LIST_ITEM_MAX_INDENTATION then block - TIGHT_LIST_ITEM + 2
      else block - LOOSE_LIST_ITEM + 2)"
proof -
  from assms have "block \<le> 15"
    by (simp add: is_list_item_def)
  then have "sint block = uint block"
    by (rule sint_small)
  then show ?thesis
    by (simp add: list_item_indentation_def word_le_def)
qed

lemma list_item_indentation_examples:
  "list_item_indentation 9 = 2 \<and> list_item_indentation 200 = 200"
  by (simp add: list_item_indentation_def)

subsection \<open>The recursion of \<^verbatim>\<open>scan\<close>\<close>

lemma scan_tail_check_block:
  "scan_tail p v True False l s = Some (False, l, s)"
  by (simp add: scan_tail_def)




subsection \<open>Serialization\<close>

lemma blocks_count_of_nat:
  assumes "n \<le> 248"
  shows "unat (deserialize_blocks_count (of_nat (7 + n))) = n"
proof -
  have "take_bit 32 (7 + n) = 7 + n"
    using assms by (simp add: take_bit_nat_eq_self_iff)
  then have "(ucast (of_nat (7 + n) :: 32 word) :: 64 word) = of_nat (7 + n)"
    by (simp only: unsigned_of_nat len_of_numeral_defs) simp
  then have "deserialize_blocks_count (of_nat (7 + n)) = of_nat n"
    by (simp add: deserialize_blocks_count_def del: of_nat_add) simp
  moreover have "unat (of_nat n :: 64 word) = n"
    using assms by (simp add: unat_of_nat)
  ultimately show ?thesis by simp
qed

lemma scanner_rebuild:
  "\<lparr>open_blocks = bs, matched = matched s, indentation = indentation s, column = column s,
     code_span_delimiter_length = code_span_delimiter_length s,
     num_emphasis_delimiters = num_emphasis_delimiters s,
     num_emphasis_delimiters_left = num_emphasis_delimiters_left s,
     emphasis_delimiters_is_open = emphasis_delimiters_is_open s\<rparr> = s\<lparr>open_blocks := bs\<rparr>"
  by (cases s) simp

lemma roundtrip:
  "deserialize (fst (serialize s) @ rest) (snd (serialize s))
     = Inr (s\<lparr>open_blocks := take 248 (open_blocks s)\<rparr>)
   \<and> unat (snd (serialize s)) = length (fst (serialize s))
   \<and> unat (snd (serialize s)) \<le> 255"
proof -
  define n where "n = min (length (open_blocks s)) 248"
  have n: "n \<le> 248" by (simp add: n_def)
  have ser: "serialize s = ([matched s, indentation s, column s, code_span_delimiter_length s,
           num_emphasis_delimiters s, num_emphasis_delimiters_left s,
           emphasis_delimiters_is_open s] @ take n (open_blocks s), of_nat (7 + n))"
    by (auto simp: serialize_def Let_def n_def min_def)
  have tk: "take n (open_blocks s) = take 248 (open_blocks s)"
    by (simp add: n_def min_def)
  have len: "length (take n (open_blocks s)) = n"
    by (simp add: n_def)
  have u: "unat (of_nat (7 + n) :: 32 word) = 7 + n"
    using n by (simp add: unat_of_nat del: of_nat_add)
  have pos: "(of_nat (7 + n) :: 32 word) > 0"
    using u by (simp add: word_greater_zero_iff unat_eq_zero [symmetric] del: of_nat_add)
  have vm: "n \<le> vector_max_size"
    using n by (simp add: vector_max_size_def)
  have "deserialize (fst (serialize s) @ rest) (snd (serialize s))
     = Inr (s\<lparr>open_blocks := take 248 (open_blocks s)\<rparr>)"
    using pos vm len
    by (simp add: ser deserialize_def blocks_count_of_nat [OF n] Let_def scanner_rebuild tk
         del: of_nat_add)
  moreover have "unat (snd (serialize s)) = length (fst (serialize s))"
    using u len by (simp add: ser del: of_nat_add)
  moreover have "unat (snd (serialize s)) \<le> 255"
    using u n by (simp add: ser del: of_nat_add)
  ultimately show ?thesis by blast
qed

text \<open>
  C2. \<^verbatim>\<open>serialize\<close> followed by \<^verbatim>\<open>deserialize\<close> with the returned length restores the
  scanner: the seven byte fields are the same and the stack is the same up to its first
  248 entries, the deeper ones being dropped. The returned length is the number of bytes
  written and is at most 255. Whatever follows the written bytes in the buffer
  (\<open>rest\<close>) is not looked at.
\<close>

theorem serialize_deserialize_roundtrip:
  "deserialize (fst (serialize s) @ rest) (snd (serialize s))
     = Inr (s\<lparr>open_blocks := take 248 (open_blocks s)\<rparr>)
   \<and> unat (snd (serialize s)) = length (fst (serialize s))
   \<and> unat (snd (serialize s)) \<le> 255"
  by (rule roundtrip)

theorem serialize_deserialize_roundtrip_witness:
  "deserialize (fst (serialize (fresh_scanner\<lparr>open_blocks := [0, 9], matched := 2\<rparr>)) @ [5])
       (snd (serialize (fresh_scanner\<lparr>open_blocks := [0, 9], matched := 2\<rparr>)))
     = Inr (fresh_scanner\<lparr>open_blocks := [0, 9], matched := 2\<rparr>)
   \<and> unat (snd (serialize (fresh_scanner\<lparr>open_blocks := [0, 9], matched := 2\<rparr>))) = 9"
  using serialize_deserialize_roundtrip
    [of "fresh_scanner\<lparr>open_blocks := [0, 9], matched := 2\<rparr>" "[5]"]
  by (simp add: serialize_def)

lemma serialize_length_ge_7: "7 \<le> unat (snd (serialize s))"
proof -
  define n where "n = min (length (open_blocks s)) 248"
  have n: "n \<le> 248" by (simp add: n_def)
  have "snd (serialize s) = of_nat (7 + n)"
    by (auto simp: serialize_def Let_def n_def min_def)
  moreover have "unat (of_nat (7 + n) :: 32 word) = 7 + n"
    using n by (simp add: unat_of_nat del: of_nat_add)
  ultimately show ?thesis by simp
qed

lemma blocks_count_no_underflow:
  assumes "7 \<le> unat len"
  shows "unat (deserialize_blocks_count len) = unat len - 7"
proof -
  have lt: "unat len < 2 ^ 32"
    using unsigned_less [of len] by simp
  have uc: "unat (ucast len :: 64 word) = unat len"
    using lt by (simp add: unsigned_ucast_eq take_bit_nat_eq_self_iff)
  have "(7 :: 64 word) \<le> ucast len"
    using assms uc by (simp add: word_le_nat_alt)
  then show ?thesis
    using uc by (simp add: deserialize_blocks_count_def unat_sub)
qed

lemma deserialize_within_length:
  assumes "len = 0 \<or> 7 \<le> unat len" and "length buffer = unat len"
  shows "\<exists>s. deserialize buffer len = Inr s \<and> deserialize (buffer @ rest) len = Inr s \<and>
           open_blocks s = drop 7 buffer \<and>
           (if len = 0 then s = fresh_scanner
            else unat (deserialize_blocks_count len) = unat len - 7)"
proof (cases "len = 0")
  case True
  with assms(2) show ?thesis
    by (simp add: deserialize_def fresh_scanner_def)
next
  case False
  with assms(1) have ge: "7 \<le> unat len" by simp
  note bc = blocks_count_no_underflow [OF ge]
  have "unat len < 2 ^ 32"
    using unsigned_less [of len] by simp
  then have vm: "unat len - 7 \<le> vector_max_size"
    by (simp add: vector_max_size_def)
  have pos: "0 < len"
    using ge by (simp add: word_less_nat_alt)
  have nth: "(buffer @ rest) ! i = buffer ! i" if "i < 7" for i
    using that ge assms(2) by (simp add: nth_append)
  show ?thesis
    using pos vm ge assms(2) False
    by (simp add: deserialize_def bc Let_def nth)
qed

text \<open>
  C10, as the claim states it, fails. With \<^verbatim>\<open>length = 3\<close> the seven scalar fields are
  read all the same, so a buffer of three bytes is read beyond its end; and with a buffer
  that is long enough, \<^verbatim>\<open>length - i\<close> wraps to \<open>2 ^ 64 - 4\<close> and the resize to that size
  fails instead of giving an empty stack.
\<close>

theorem deserialize_short_length:
  "deserialize [1, 2, 3] 3 = Inl Out_Of_Bounds
   \<and> unat (deserialize_blocks_count 3) = 2 ^ 64 - 4
   \<and> deserialize (replicate 255 0) 3 = Inl Length_Error"
  by (simp add: deserialize_def deserialize_blocks_count_def vector_max_size_def)

text \<open>
  C10, amended. The only lengths \<^verbatim>\<open>deserialize\<close> is called with are 0 (the constructor)
  and what \<^verbatim>\<open>serialize\<close> returned, which is at least 7. For these, a buffer of exactly
  \<^verbatim>\<open>length\<close> bytes is enough, what follows the first \<^verbatim>\<open>length\<close> bytes (\<open>rest\<close>) is not
  looked at, the block count \<^verbatim>\<open>length - 7\<close> does not wrap, and the stack is the bytes from
  offset 7 on (empty for the lengths 0 and 7).
\<close>

theorem deserialize_reads_within_length:
  assumes "len = 0 \<or> 7 \<le> unat len" and "length buffer = unat len"
  shows "(\<exists>s. deserialize buffer len = Inr s \<and> deserialize (buffer @ rest) len = Inr s \<and>
            open_blocks s = drop 7 buffer \<and>
            (if len = 0 then s = fresh_scanner
             else unat (deserialize_blocks_count len) = unat len - 7))
         \<and> 7 \<le> unat (snd (serialize s0))"
  using deserialize_within_length [OF assms] serialize_length_ge_7 [of s0] by blast

theorem deserialize_reads_within_length_witness:
  "(\<exists>s. deserialize [1, 0, 0, 0, 0, 0, 0, 0, 9] 9 = Inr s \<and>
        deserialize ([1, 0, 0, 0, 0, 0, 0, 0, 9] @ [7, 7]) 9 = Inr s \<and>
        open_blocks s = [0, 9])
   \<and> 7 \<le> unat (snd (serialize fresh_scanner))"
  using deserialize_reads_within_length
    [of 9 "[1, 0, 0, 0, 0, 0, 0, 0, 9]" "[7, 7]" fresh_scanner]
  by auto

subsection \<open>What the loops leave alone\<close>

text \<open>\<open>frame s s'\<close>: the scanner \<open>s'\<close> is \<open>s\<close> but for the column.\<close>

definition frame :: "Scanner \<Rightarrow> Scanner \<Rightarrow> bool" where
  "frame s s' =
     (open_blocks s' = open_blocks s \<and> matched s' = matched s \<and>
      indentation s' = indentation s \<and>
      code_span_delimiter_length s' = code_span_delimiter_length s \<and>
      num_emphasis_delimiters s' = num_emphasis_delimiters s \<and>
      num_emphasis_delimiters_left s' = num_emphasis_delimiters_left s \<and>
      emphasis_delimiters_is_open s' = emphasis_delimiters_is_open s)"

lemma frame_refl [simp]: "frame s s"
  by (simp add: frame_def)

lemma frame_open_blocks: "frame s s' \<Longrightarrow> open_blocks s' = open_blocks s"
  and frame_matched: "frame s s' \<Longrightarrow> matched s' = matched s"
  and frame_indentation: "frame s s' \<Longrightarrow> indentation s' = indentation s"
  and frame_code_span:
    "frame s s' \<Longrightarrow> code_span_delimiter_length s' = code_span_delimiter_length s"
  and frame_num: "frame s s' \<Longrightarrow> num_emphasis_delimiters s' = num_emphasis_delimiters s"
  and frame_left:
    "frame s s' \<Longrightarrow> num_emphasis_delimiters_left s' = num_emphasis_delimiters_left s"
  and frame_is_open:
    "frame s s' \<Longrightarrow> emphasis_delimiters_is_open s' = emphasis_delimiters_is_open s"
  by (simp_all add: frame_def)

lemmas frame_fields = frame_open_blocks frame_matched frame_indentation frame_code_span
  frame_num frame_left frame_is_open

lemma advance_lexer [simp]: "fst (snd (advance skip l s)) = lexer_advance skip l"
  by (simp add: advance_def Let_def)

lemma advance_scanner [simp]:
  "snd (snd (advance skip l s)) = s\<lparr>column := column s + of_nat (fst (advance skip l s))\<rparr>"
  by (simp add: advance_def Let_def)

lemma backtick_loop_frame: "frame s (snd (snd (backtick_loop level l s)))"
proof (induction level l s rule: backtick_loop.induct)
  case (1 level l s)
  note IH = "1.IH" [OF _ refl prod.collapse prod.collapse]
  show ?case
    by (subst backtick_loop.simps) (use IH in \<open>simp add: Let_def case_prod_unfold frame_def\<close>)
qed

lemma tilde_loop_frame: "frame s (snd (snd (tilde_loop level l s)))"
proof (induction level l s rule: tilde_loop.induct)
  case (1 level l s)
  note IH = "1.IH" [OF _ refl prod.collapse prod.collapse]
  show ?case
    by (subst tilde_loop.simps) (use IH in \<open>simp add: Let_def case_prod_unfold frame_def\<close>)
qed

lemma hash_loop_frame: "frame s (snd (snd (hash_loop level l s)))"
proof (induction level l s rule: hash_loop.induct)
  case (1 level l s)
  note IH = "1.IH" [OF _ refl prod.collapse prod.collapse]
  show ?case
    by (subst hash_loop.simps) (use IH in \<open>simp add: Let_def case_prod_unfold frame_def\<close>)
qed

lemma equals_loop_frame: "frame s (snd (equals_loop l s))"
proof (induction l s rule: equals_loop.induct)
  case (1 l s)
  note IH = "1.IH" [OF _ refl prod.collapse prod.collapse]
  show ?case
    by (subst equals_loop.simps) (use IH in \<open>simp add: Let_def case_prod_unfold frame_def\<close>)
qed

lemma space_skip_loop_frame: "frame s (snd (space_skip_loop l s))"
proof (induction l s rule: space_skip_loop.induct)
  case (1 l s)
  note IH = "1.IH" [OF _ refl prod.collapse prod.collapse]
  show ?case
    by (subst space_skip_loop.simps)
       (use IH in \<open>simp add: Let_def case_prod_unfold frame_def\<close>)
qed

lemma space_count_loop_frame: "frame s (snd (snd (space_count_loop e l s)))"
proof (induction e l s rule: space_count_loop.induct)
  case (1 e l s)
  note IH = "1.IH" [OF _ refl prod.collapse prod.collapse]
  show ?case
    by (subst space_count_loop.simps)
       (use IH in \<open>simp add: Let_def case_prod_unfold frame_def\<close>)
qed

lemma digits_loop_frame: "frame s (snd (snd (digits_loop d l s)))"
proof (induction d l s rule: digits_loop.induct)
  case (1 d l s)
  note IH = "1.IH" [OF _ refl prod.collapse prod.collapse]
  show ?case
    by (subst digits_loop.simps) (use IH in \<open>simp add: Let_def case_prod_unfold frame_def\<close>)
qed

lemma minus_loop_frame: "frame s (snd (snd (minus_loop cb m e w a l s)))"
proof (induction cb m e w a l s rule: minus_loop.induct)
  case (1 cb m e w a l s)
  note IH1 = "1.IH"(1) [OF _ refl refl prod.collapse prod.collapse]
  note IH2 = "1.IH"(2) [OF _ _ refl prod.collapse prod.collapse]
  show ?case
    by (subst minus_loop.simps)
       (use IH1 IH2 in \<open>simp add: Let_def case_prod_unfold frame_def\<close>)
qed

lemma star_loop_frame: "frame s (snd (snd (star_loop cb m e l s)))"
proof (induction cb m e l s rule: star_loop.induct)
  case (1 cb m e l s)
  note IH1 = "1.IH"(1) [OF _ refl refl prod.collapse prod.collapse]
  note IH2 = "1.IH"(2) [OF _ _ refl prod.collapse prod.collapse]
  show ?case
    by (subst star_loop.simps)
       (use IH1 IH2 in \<open>simp add: Let_def case_prod_unfold frame_def\<close>)
qed

lemma underscore_loop_frame: "frame s (snd (snd (underscore_loop n l s)))"
proof (induction n l s rule: underscore_loop.induct)
  case (1 n l s)
  note IH1 = "1.IH"(1) [OF _ refl prod.collapse prod.collapse]
  note IH2 = "1.IH"(2) [OF _ _ refl prod.collapse prod.collapse]
  show ?case
    by (subst underscore_loop.simps)
       (use IH1 IH2 in \<open>simp add: Let_def case_prod_unfold frame_def\<close>)
qed

lemmas backtick_loop_fields [simp] = frame_fields [OF backtick_loop_frame]
lemmas tilde_loop_fields [simp] = frame_fields [OF tilde_loop_frame]
lemmas hash_loop_fields [simp] = frame_fields [OF hash_loop_frame]
lemmas equals_loop_fields [simp] = frame_fields [OF equals_loop_frame]
lemmas space_skip_loop_fields [simp] = frame_fields [OF space_skip_loop_frame]
lemmas space_count_loop_fields [simp] = frame_fields [OF space_count_loop_frame]
lemmas digits_loop_fields [simp] = frame_fields [OF digits_loop_frame]
lemmas minus_loop_fields [simp] = frame_fields [OF minus_loop_frame]
lemmas star_loop_fields [simp] = frame_fields [OF star_loop_frame]
lemmas underscore_loop_fields [simp] = frame_fields [OF underscore_loop_frame]

text \<open>The preamble loop changes the indentation too, the emphasis loops the run length.\<close>

lemma indentation_loop_fields [simp]:
  "open_blocks (snd (indentation_loop l s)) = open_blocks s"
  "matched (snd (indentation_loop l s)) = matched s"
  "code_span_delimiter_length (snd (indentation_loop l s)) = code_span_delimiter_length s"
  "num_emphasis_delimiters (snd (indentation_loop l s)) = num_emphasis_delimiters s"
  "num_emphasis_delimiters_left (snd (indentation_loop l s)) = num_emphasis_delimiters_left s"
  "emphasis_delimiters_is_open (snd (indentation_loop l s)) = emphasis_delimiters_is_open s"
proof (induction l s rule: indentation_loop.induct)
  case (1 l s)
  note IH = "1.IH" [OF _ refl prod.collapse prod.collapse]
  show "open_blocks (snd (indentation_loop l s)) = open_blocks s"
    by (subst indentation_loop.simps) (use IH(1) in \<open>simp add: Let_def case_prod_unfold\<close>)
  show "matched (snd (indentation_loop l s)) = matched s"
    by (subst indentation_loop.simps) (use IH(2) in \<open>simp add: Let_def case_prod_unfold\<close>)
  show "code_span_delimiter_length (snd (indentation_loop l s)) = code_span_delimiter_length s"
    by (subst indentation_loop.simps) (use IH(3) in \<open>simp add: Let_def case_prod_unfold\<close>)
  show "num_emphasis_delimiters (snd (indentation_loop l s)) = num_emphasis_delimiters s"
    by (subst indentation_loop.simps) (use IH(4) in \<open>simp add: Let_def case_prod_unfold\<close>)
  show "num_emphasis_delimiters_left (snd (indentation_loop l s))
        = num_emphasis_delimiters_left s"
    by (subst indentation_loop.simps) (use IH(5) in \<open>simp add: Let_def case_prod_unfold\<close>)
  show "emphasis_delimiters_is_open (snd (indentation_loop l s))
        = emphasis_delimiters_is_open s"
    by (subst indentation_loop.simps) (use IH(6) in \<open>simp add: Let_def case_prod_unfold\<close>)
qed

lemma star_run_loop_fields [simp]:
  "open_blocks (snd (star_run_loop l s)) = open_blocks s"
  "matched (snd (star_run_loop l s)) = matched s"
  "indentation (snd (star_run_loop l s)) = indentation s"
  "code_span_delimiter_length (snd (star_run_loop l s)) = code_span_delimiter_length s"
  "num_emphasis_delimiters_left (snd (star_run_loop l s)) = num_emphasis_delimiters_left s"
  "emphasis_delimiters_is_open (snd (star_run_loop l s)) = emphasis_delimiters_is_open s"
proof (induction l s rule: star_run_loop.induct)
  case (1 l s)
  note IH = "1.IH" [OF _ refl prod.collapse prod.collapse]
  show "open_blocks (snd (star_run_loop l s)) = open_blocks s"
    by (subst star_run_loop.simps) (use IH(1) in \<open>simp add: Let_def case_prod_unfold\<close>)
  show "matched (snd (star_run_loop l s)) = matched s"
    by (subst star_run_loop.simps) (use IH(2) in \<open>simp add: Let_def case_prod_unfold\<close>)
  show "indentation (snd (star_run_loop l s)) = indentation s"
    by (subst star_run_loop.simps) (use IH(3) in \<open>simp add: Let_def case_prod_unfold\<close>)
  show "code_span_delimiter_length (snd (star_run_loop l s)) = code_span_delimiter_length s"
    by (subst star_run_loop.simps) (use IH(4) in \<open>simp add: Let_def case_prod_unfold\<close>)
  show "num_emphasis_delimiters_left (snd (star_run_loop l s)) = num_emphasis_delimiters_left s"
    by (subst star_run_loop.simps) (use IH(5) in \<open>simp add: Let_def case_prod_unfold\<close>)
  show "emphasis_delimiters_is_open (snd (star_run_loop l s)) = emphasis_delimiters_is_open s"
    by (subst star_run_loop.simps) (use IH(6) in \<open>simp add: Let_def case_prod_unfold\<close>)
qed

lemma underscore_run_loop_fields [simp]:
  "open_blocks (snd (underscore_run_loop l s)) = open_blocks s"
  "matched (snd (underscore_run_loop l s)) = matched s"
  "indentation (snd (underscore_run_loop l s)) = indentation s"
  "code_span_delimiter_length (snd (underscore_run_loop l s)) = code_span_delimiter_length s"
  "num_emphasis_delimiters_left (snd (underscore_run_loop l s))
     = num_emphasis_delimiters_left s"
  "emphasis_delimiters_is_open (snd (underscore_run_loop l s)) = emphasis_delimiters_is_open s"
proof (induction l s rule: underscore_run_loop.induct)
  case (1 l s)
  note IH = "1.IH" [OF _ refl prod.collapse prod.collapse]
  show "open_blocks (snd (underscore_run_loop l s)) = open_blocks s"
    by (subst underscore_run_loop.simps) (use IH(1) in \<open>simp add: Let_def case_prod_unfold\<close>)
  show "matched (snd (underscore_run_loop l s)) = matched s"
    by (subst underscore_run_loop.simps) (use IH(2) in \<open>simp add: Let_def case_prod_unfold\<close>)
  show "indentation (snd (underscore_run_loop l s)) = indentation s"
    by (subst underscore_run_loop.simps) (use IH(3) in \<open>simp add: Let_def case_prod_unfold\<close>)
  show "code_span_delimiter_length (snd (underscore_run_loop l s))
        = code_span_delimiter_length s"
    by (subst underscore_run_loop.simps) (use IH(4) in \<open>simp add: Let_def case_prod_unfold\<close>)
  show "num_emphasis_delimiters_left (snd (underscore_run_loop l s))
        = num_emphasis_delimiters_left s"
    by (subst underscore_run_loop.simps) (use IH(5) in \<open>simp add: Let_def case_prod_unfold\<close>)
  show "emphasis_delimiters_is_open (snd (underscore_run_loop l s))
        = emphasis_delimiters_is_open s"
    by (subst underscore_run_loop.simps) (use IH(6) in \<open>simp add: Let_def case_prod_unfold\<close>)
qed

text \<open>The lexer side: no loop writes the result symbol.\<close>

lemma lexer_advance_result [simp]: "result_symbol (lexer_advance skip l) = result_symbol l"
  by (simp add: lexer_advance_def)

lemma mark_end_fields [simp]:
  "result_symbol (mark_end l) = result_symbol l"
  "input (mark_end l) = input l"
  "position (mark_end l) = position l"
  "lookahead (mark_end l) = lookahead l"
  "eof (mark_end l) = eof l"
  by (simp_all add: mark_end_def lookahead_def eof_def)

lemma space_count_loop_result [simp]:
  "result_symbol (fst (snd (space_count_loop e l s))) = result_symbol l"
proof (induction e l s rule: space_count_loop.induct)
  case (1 e l s)
  note IH = "1.IH" [OF _ refl prod.collapse prod.collapse]
  show ?case
    by (subst space_count_loop.simps) (use IH in \<open>simp add: Let_def case_prod_unfold\<close>)
qed

subsection \<open>What one call does to the stack and the cursor\<close>

definition is_fenced :: "Block \<Rightarrow> bool" where
  "is_fenced b = (b = FENCED_CODE_BLOCK_TILDE \<or> b = FENCED_CODE_BLOCK_BACKTICK)"

definition is_leaf :: "Block \<Rightarrow> bool" where
  "is_leaf b = (b = INDENTED_CODE_BLOCK \<or> is_fenced b)"

definition is_tight :: "Block \<Rightarrow> bool" where
  "is_tight b = (b \<ge> TIGHT_LIST_ITEM \<and> b \<le> TIGHT_LIST_ITEM_MAX_INDENTATION)"

definition is_loose :: "Block \<Rightarrow> bool" where
  "is_loose b = (b \<ge> LOOSE_LIST_ITEM \<and> b \<le> LOOSE_LIST_ITEM_MAX_INDENTATION)"

text \<open>
  \<open>stack_step v at_eof bs m t bs' m'\<close> lists every way in which a call of \<^verbatim>\<open>scan\<close> with
  \<^verbatim>\<open>check_block = false\<close> that returns true with the token \<open>t\<close> can take the stack \<open>bs\<close>
  and the cursor \<open>m\<close> to \<open>bs'\<close> and \<open>m'\<close>, and whether the token was looked up in the
  mask \<open>v\<close>. It is a summary used in the proofs below, proved of \<open>scan\<close> in
  \<open>scan_stack_step\<close>.
\<close>

definition stack_step ::
  "(TokenType \<Rightarrow> bool) \<Rightarrow> bool \<Rightarrow> Block list \<Rightarrow> 8 word \<Rightarrow> TokenType \<Rightarrow> Block list \<Rightarrow> 8 word
     \<Rightarrow> bool" where
  "stack_step v at_eof bs m t bs' m' =
     (if at_eof then bs \<noteq> [] \<and> t = close_symbol (last bs) \<and> bs' = butlast bs \<and> m' = m
      else if unat m > length bs then
        (t = LINE_ENDING \<and> v t \<and> bs' = bs \<and> m' = 0) \<or>
        (t \<in> {VIRTUAL_SPACE, CODE_SPAN_START, CODE_SPAN_CLOSE, EMPHASIS_CLOSE_STAR,
               EMPHASIS_CLOSE_UNDERSCORE} \<and> v t \<and> bs' = bs \<and> m' = m) \<or>
        (t \<in> {EMPHASIS_OPEN_STAR, EMPHASIS_OPEN_UNDERSCORE} \<and> bs' = bs \<and> m' = m)
      else if unat m < length bs then
        (t = INDENTATION \<and> v t \<and> bs' = bs \<and> m' = m) \<or>
        (t = BLOCK_CONTINUATION \<and> v t \<and> bs' = bs \<and>
           m' = m + (if is_leaf (bs ! unat m) then 2 else 1)) \<or>
        (t = BLOCK_CLOSE \<and> v t \<and> is_fenced (bs ! unat m) \<and> bs' = butlast bs \<and> m' = m + 1) \<or>
        (t = LAZY_CONTINUATION \<and> v t \<and> bs' = bs \<and> m' = of_nat (length bs + 1)) \<or>
        (t = close_symbol (last bs) \<and> bs' = butlast bs \<and> m' = m) \<or>
        (is_fenced (bs ! unat m) \<and> butlast bs \<noteq> [] \<and> t = close_symbol (last (butlast bs)) \<and>
           bs' = butlast (butlast bs) \<and> m' = m)
      else
        (t = INDENTATION \<and> v t \<and> bs' = bs \<and> m' = m) \<or>
        (t = BLANK_LINE \<and> v t \<and> bs' = map loosen bs \<and> m' = m + 1) \<or>
        (t = BLOCK_QUOTE_START \<and> v t \<and> bs' = bs @ [BLOCK_QUOTE] \<and> m' = m + 1) \<or>
        (t \<in> {LIST_MARKER_MINUS, LIST_MARKER_PLUS, LIST_MARKER_STAR} \<and> v t \<and>
           (\<exists>b. is_tight b \<and> bs' = bs @ [b]) \<and> m' = m + 1) \<or>
        (t \<in> {LIST_MARKER_DOT, LIST_MARKER_PARENTHETHIS} \<and>
           (\<exists>b. is_tight b \<and> bs' = bs @ [b]) \<and> m' = m + 1) \<or>
        (t = INDENTED_CHUNK_START \<and> v t \<and> bs' = bs @ [INDENTED_CODE_BLOCK] \<and> m' = m + 2) \<or>
        (t = FENCED_CODE_BLOCK_START \<and> v t \<and> (\<exists>b. is_fenced b \<and> bs' = bs @ [b]) \<and>
           m' = m + 2) \<or>
        (t \<in> {ATX_H1_MARKER, SETEXT_H1_UNDERLINE, SETEXT_H2_UNDERLINE,
               SETEXT_H2_UNDERLINE_OR_THEMATIC_BREAK, THEMATIC_BREAK} \<and> v t \<and>
           bs' = bs \<and> m' = m + 1) \<or>
        (t \<in> {ATX_H2_MARKER, ATX_H3_MARKER, ATX_H4_MARKER, ATX_H5_MARKER, ATX_H6_MARKER} \<and>
           bs' = bs \<and> m' = m + 1) \<or>
        (t = MATCHING_DONE \<and> bs' = bs \<and> m' = m + 1))"

text \<open>The block that \<open>open_list_item\<close> pushes, from the count and the indentation.\<close>

definition list_item_block :: "nat \<Rightarrow> 8 word \<Rightarrow> Block" where
  "list_item_block e ind =
     of_nat (unat TIGHT_LIST_ITEM + (if e - 1 \<le> 3 then e - 1 + unat ind else unat ind))"

lemma open_list_item_fields [simp]:
  "open_blocks (open_list_item e s) = open_blocks s @ [list_item_block e (indentation s)]"
  "matched (open_list_item e s) = matched s + 1"
  "indentation (open_list_item e s) = (if e - 1 \<le> 3 then 0 else of_nat (e - 1))"
  "column (open_list_item e s) = column s"
  "code_span_delimiter_length (open_list_item e s) = code_span_delimiter_length s"
  "num_emphasis_delimiters (open_list_item e s) = num_emphasis_delimiters s"
  "num_emphasis_delimiters_left (open_list_item e s) = num_emphasis_delimiters_left s"
  "emphasis_delimiters_is_open (open_list_item e s) = emphasis_delimiters_is_open s"
  by (simp_all add: open_list_item_def list_item_block_def Let_def)

lemma unat_of_nat_small: "k < 256 \<Longrightarrow> unat (of_nat k :: 8 word) = k"
  using unat_of_nat [where 'a = 8, of k] by simp

lemma list_item_block_value:
  assumes "ind \<le> 3"
  shows "unat (list_item_block e ind)
           = 2 + (if e - 1 \<le> 3 then e - 1 + unat ind else unat ind)"
proof -
  have "unat ind \<le> 3"
    using assms by (simp add: word_le_nat_alt)
  then show ?thesis
    unfolding list_item_block_def by (subst unat_of_nat_small) auto
qed

lemma list_item_block_tight: "ind \<le> 3 \<Longrightarrow> is_tight (list_item_block e ind)"
proof -
  assume a: "ind \<le> 3"
  then have "unat ind \<le> 3"
    by (simp add: word_le_nat_alt)
  then show ?thesis
    using list_item_block_value [OF a, of e]
    by (auto simp: is_tight_def word_le_nat_alt split: if_splits)
qed

subsection \<open>The branches of the block phase\<close>

text \<open>
  A branch that returns true with \<^verbatim>\<open>check_block = false\<close> makes a step of \<open>stack_step\<close>.
  The hypotheses say where the branch runs: the inline phase is over
  (\<^verbatim>\<open>matched <= open_blocks.size()\<close>) and \<open>matching\<close> is what \<^verbatim>\<open>scan\<close> computed.
\<close>

lemma scan_indented_return:
  assumes "scan_indented v False matching l s = Return r (l', s')"
    and "unat (matched s) \<le> length (open_blocks s)"
    and "matching = (unat (matched s) < length (open_blocks s))"
  shows "r \<and> stack_step v False (open_blocks s) (matched s) (result_symbol l')
           (open_blocks s') (matched s')"
  using assms
  by (clarsimp simp: scan_indented_def stack_step_def is_leaf_def is_fenced_def split: if_splits)

lemma list_item_not_leaf: "is_list_item b \<Longrightarrow> \<not> is_leaf b"
  by (auto simp: is_list_item_def is_leaf_def is_fenced_def word_le_nat_alt)

lemma scan_list_item_return:
  assumes "scan_list_item v matching l s = Return r (l', s')"
    and "unat (matched s) \<le> length (open_blocks s)"
    and "matching = (unat (matched s) < length (open_blocks s))"
  shows "r \<and> stack_step v False (open_blocks s) (matched s) (result_symbol l')
           (open_blocks s') (matched s')"
  using assms
  by (clarsimp simp: scan_list_item_def stack_step_def list_item_not_leaf split: if_splits)

lemma block_blank_line_return:
  assumes "block_blank_line v False matching l s = Return r (l', s')"
    and "unat (matched s) \<le> length (open_blocks s)"
    and "matching = (unat (matched s) < length (open_blocks s))"
  shows "r \<and> stack_step v False (open_blocks s) (matched s) (result_symbol l')
           (open_blocks s') (matched s')"
  using assms
  by (clarsimp simp: block_blank_line_def stack_step_def split: if_splits)

lemma block_quote_return:
  assumes "block_quote v False matching l s = Return r (l', s')"
    and "unat (matched s) \<le> length (open_blocks s)"
    and "matching = (unat (matched s) < length (open_blocks s))"
  shows "r \<and> stack_step v False (open_blocks s) (matched s) (result_symbol l')
           (open_blocks s') (matched s')"
  using assms
  by (clarsimp simp: block_quote_def stack_step_def is_leaf_def is_fenced_def Let_def
      case_prod_unfold split: if_splits)

lemma block_tilde_return:
  assumes "block_tilde v False matching l s = Return r (l', s')"
    and "unat (matched s) \<le> length (open_blocks s)"
    and "matching = (unat (matched s) < length (open_blocks s))"
  shows "r \<and> stack_step v False (open_blocks s) (matched s) (result_symbol l')
           (open_blocks s') (matched s')"
  using assms
  by (clarsimp simp: block_tilde_def stack_step_def is_leaf_def is_fenced_def Let_def
      case_prod_unfold mark_end_def split: if_splits)

lemma block_backtick_return:
  assumes "block_backtick v False matching l s = Return r (l', s')"
    and "unat (matched s) \<le> length (open_blocks s)"
    and "matching = (unat (matched s) < length (open_blocks s))"
  shows "r \<and> stack_step v False (open_blocks s) (matched s) (result_symbol l')
           (open_blocks s') (matched s')"
  using assms
  by (clarsimp simp: block_backtick_def stack_step_def is_leaf_def is_fenced_def Let_def
      case_prod_unfold mark_end_def split: if_splits)

lemma atx_token_cases:
  "level \<le> 6 \<Longrightarrow> ATX_H1_MARKER + (level - 1) \<in> {ATX_H1_MARKER, ATX_H2_MARKER, ATX_H3_MARKER,
     ATX_H4_MARKER, ATX_H5_MARKER, ATX_H6_MARKER}"
  by auto

lemma block_atx_return:
  assumes "block_atx v False matching l s = Return r (l', s')"
    and "unat (matched s) \<le> length (open_blocks s)"
    and "matching = (unat (matched s) < length (open_blocks s))"
  shows "r \<and> stack_step v False (open_blocks s) (matched s) (result_symbol l')
           (open_blocks s') (matched s')"
proof -
  let ?level = "fst (hash_loop 0 (mark_end l) s)"
  from assms have r: "r" and lv: "?level \<le> 6" and v: "v ATX_H1_MARKER"
    and m: "unat (matched s) = length (open_blocks s)"
    and l': "result_symbol l' = ATX_H1_MARKER + (?level - 1)"
    and s': "open_blocks s' = open_blocks s" "matched s' = matched s + 1"
    by (auto simp: block_atx_def Let_def case_prod_unfold mark_end_def split: if_splits)
  from atx_token_cases [OF lv] show ?thesis
    unfolding l' [symmetric] using r v m s'
    by (auto simp: stack_step_def)
qed

lemma block_equals_return:
  assumes "block_equals v False matching l s = Return r (l', s')"
    and "unat (matched s) \<le> length (open_blocks s)"
    and "matching = (unat (matched s) < length (open_blocks s))"
  shows "r \<and> stack_step v False (open_blocks s) (matched s) (result_symbol l')
           (open_blocks s') (matched s')"
  using assms
  by (clarsimp simp: block_equals_def stack_step_def Let_def case_prod_unfold mark_end_def
      split: if_splits)

lemma block_plus_return:
  assumes "block_plus v False matching l s = Return r (l', s')"
    and "unat (matched s) \<le> length (open_blocks s)"
    and "matching = (unat (matched s) < length (open_blocks s))"
  shows "r \<and> stack_step v False (open_blocks s) (matched s) (result_symbol l')
           (open_blocks s') (matched s')"
  using assms
  by (clarsimp simp: block_plus_def stack_step_def Let_def case_prod_unfold mark_end_def
      list_item_block_tight split: if_splits)

lemma block_digits_return:
  assumes "block_digits v False matching l s = Return r (l', s')"
    and "unat (matched s) \<le> length (open_blocks s)"
    and "matching = (unat (matched s) < length (open_blocks s))"
  shows "r \<and> stack_step v False (open_blocks s) (matched s) (result_symbol l')
           (open_blocks s') (matched s')"
  using assms
  by (clarsimp simp: block_digits_def stack_step_def Let_def case_prod_unfold mark_end_def
      list_item_block_tight split: if_splits)

lemma block_minus_return:
  assumes "block_minus v False matching l s = Return r (l', s')"
    and "unat (matched s) \<le> length (open_blocks s)"
    and "matching = (unat (matched s) < length (open_blocks s))"
  shows "r \<and> stack_step v False (open_blocks s) (matched s) (result_symbol l')
           (open_blocks s') (matched s')"
  using assms
  by (clarsimp simp: block_minus_def stack_step_def Let_def case_prod_unfold mark_end_def
      list_item_block_tight split: if_splits)

lemma block_star_return:
  assumes "block_star v False matching l s = Return r (l', s')"
    and "unat (matched s) \<le> length (open_blocks s)"
    and "matching = (unat (matched s) < length (open_blocks s))"
  shows "r \<and> stack_step v False (open_blocks s) (matched s) (result_symbol l')
           (open_blocks s') (matched s')"
  using assms
  by (clarsimp simp: block_star_def stack_step_def Let_def case_prod_unfold mark_end_def
      list_item_block_tight split: if_splits)

lemma block_underscore_return:
  assumes "block_underscore v False matching l s = Return r (l', s')"
    and "unat (matched s) \<le> length (open_blocks s)"
    and "matching = (unat (matched s) < length (open_blocks s))"
  shows "r \<and> stack_step v False (open_blocks s) (matched s) (result_symbol l')
           (open_blocks s') (matched s')"
  using assms
  by (clarsimp simp: block_underscore_def stack_step_def Let_def case_prod_unfold mark_end_def
      split: if_splits)

lemma block_switch_return:
  assumes "block_switch v False matching l s = Return r (l', s')"
    and "unat (matched s) \<le> length (open_blocks s)"
    and "matching = (unat (matched s) < length (open_blocks s))"
  shows "r \<and> stack_step v False (open_blocks s) (matched s) (result_symbol l')
           (open_blocks s') (matched s')"
  using assms
  unfolding block_switch_def
  by (auto split: if_splits
      dest: block_blank_line_return block_quote_return block_tilde_return block_backtick_return
            block_atx_return block_equals_return block_plus_return block_digits_return
            block_minus_return block_star_return block_underscore_return)

text \<open>
  A branch that breaks, and any branch of a probe (\<^verbatim>\<open>check_block = true\<close>), leaves the
  scanner as it was but for the column.
\<close>

lemma scan_indented_frame:
  "scan_indented v cb matching l s = Break (l', s') \<Longrightarrow> l' = l \<and> s' = s"
  "scan_indented v True matching l s = Return r (l', s') \<Longrightarrow> frame s s'"
  by (auto simp: scan_indented_def split: if_splits)

lemma scan_list_item_frame:
  "scan_list_item v matching l s = Break (l', s') \<Longrightarrow> l' = l \<and> s' = s"
  "scan_list_item v False l s = Return r (l', s') \<Longrightarrow> frame s s'"
  by (auto simp: scan_list_item_def split: if_splits)

lemma block_blank_line_frame:
  "block_blank_line v cb matching l s = Break (l', s') \<Longrightarrow> frame s s'"
  "block_blank_line v True matching l s = Return r (l', s') \<Longrightarrow> frame s s'"
  by (clarsimp simp: block_blank_line_def Let_def case_prod_unfold frame_def prod_eq_iff split: if_splits)+

lemma block_quote_frame:
  "block_quote v cb matching l s = Break (l', s') \<Longrightarrow> frame s s'"
  "block_quote v True matching l s = Return r (l', s') \<Longrightarrow> frame s s'"
  by (clarsimp simp: block_quote_def Let_def case_prod_unfold frame_def prod_eq_iff split: if_splits)+

lemma block_tilde_frame:
  "block_tilde v cb matching l s = Break (l', s') \<Longrightarrow> frame s s'"
  "block_tilde v True False l s = Return r (l', s') \<Longrightarrow> frame s s'"
  by (clarsimp simp: block_tilde_def Let_def case_prod_unfold frame_def prod_eq_iff split: if_splits)+

lemma block_backtick_frame:
  "block_backtick v cb matching l s = Break (l', s') \<Longrightarrow> frame s s'"
  "block_backtick v True False l s = Return r (l', s') \<Longrightarrow> frame s s'"
  by (clarsimp simp: block_backtick_def Let_def case_prod_unfold frame_def prod_eq_iff split: if_splits)+

lemma block_atx_frame:
  "block_atx v cb matching l s = Break (l', s') \<Longrightarrow> frame s s'"
  "block_atx v True matching l s = Return r (l', s') \<Longrightarrow> frame s s'"
  by (clarsimp simp: block_atx_def Let_def case_prod_unfold frame_def prod_eq_iff split: if_splits)+

lemma block_equals_frame:
  "block_equals v cb matching l s = Break (l', s') \<Longrightarrow> frame s s'"
  "block_equals v True matching l s = Return r (l', s') \<Longrightarrow> frame s s'"
  by (clarsimp simp: block_equals_def Let_def case_prod_unfold frame_def prod_eq_iff split: if_splits)+

lemma block_plus_frame:
  "block_plus v cb matching l s = Break (l', s') \<Longrightarrow> frame s s'"
  "block_plus v True matching l s = Return r (l', s') \<Longrightarrow> frame s s'"
  by (clarsimp simp: block_plus_def Let_def case_prod_unfold frame_def prod_eq_iff split: if_splits)+

lemma block_digits_frame:
  "block_digits v cb matching l s = Break (l', s') \<Longrightarrow> frame s s'"
  "block_digits v True matching l s = Return r (l', s') \<Longrightarrow> frame s s'"
  by (clarsimp simp: block_digits_def Let_def case_prod_unfold frame_def prod_eq_iff split: if_splits)+

lemma block_minus_frame:
  "block_minus v cb matching l s = Break (l', s') \<Longrightarrow> frame s s'"
  "block_minus v True matching l s = Return r (l', s') \<Longrightarrow> frame s s'"
  by (clarsimp simp: block_minus_def Let_def case_prod_unfold frame_def prod_eq_iff split: if_splits)+

lemma block_star_frame:
  "block_star v cb matching l s = Break (l', s') \<Longrightarrow> frame s s'"
  "block_star v True matching l s = Return r (l', s') \<Longrightarrow> frame s s'"
  by (clarsimp simp: block_star_def Let_def case_prod_unfold frame_def prod_eq_iff split: if_splits)+

lemma block_underscore_frame:
  "block_underscore v cb matching l s = Break (l', s') \<Longrightarrow> frame s s'"
  "block_underscore v True matching l s = Return r (l', s') \<Longrightarrow> frame s s'"
  by (clarsimp simp: block_underscore_def Let_def case_prod_unfold frame_def prod_eq_iff split: if_splits)+

lemma block_switch_break: "block_switch v cb matching l s = Break (l', s') \<Longrightarrow> frame s s'"
  unfolding block_switch_def
  by (auto split: if_splits
      dest: block_blank_line_frame(1) block_quote_frame(1) block_tilde_frame(1)
            block_backtick_frame(1) block_atx_frame(1) block_equals_frame(1)
            block_plus_frame(1) block_digits_frame(1) block_minus_frame(1)
            block_star_frame(1) block_underscore_frame(1))

lemma block_switch_check:
  "block_switch v True False l s = Return r (l', s') \<Longrightarrow> frame s s'"
  unfolding block_switch_def
  by (auto split: if_splits
      dest: block_blank_line_frame(2) block_quote_frame(2) block_tilde_frame(2)
            block_backtick_frame(2) block_atx_frame(2) block_equals_frame(2)
            block_plus_frame(2) block_digits_frame(2) block_minus_frame(2)
            block_star_frame(2) block_underscore_frame(2))

text \<open>
  While a block is being matched, only the two fence cases advance the lexer before they
  break.
\<close>

lemma block_switch_break_input:
  assumes "block_switch v cb True l s = Break (l', s')"
  shows "input l' = input l \<or> is_fenced (open_blocks s ! unat (matched s))"
  using assms
  by (auto simp: block_switch_def block_blank_line_def block_quote_def block_tilde_def
      block_backtick_def block_atx_def block_equals_def block_plus_def block_digits_def
      block_minus_def block_star_def block_underscore_def is_fenced_def Let_def
      case_prod_unfold split: if_splits)

subsection \<open>The other phases, and the whole call\<close>

lemma scan_eof_step:
  assumes "scan_eof l s = (r, l', s')"
  shows "if r then stack_step v True (open_blocks s) (matched s) (result_symbol l')
                     (open_blocks s') (matched s')
         else l' = l \<and> s' = s"
  using assms by (auto simp: scan_eof_def close_top_def stack_step_def split: if_splits)

lemma inline_cr_step:
  assumes "unat (matched s) > length (open_blocks s)"
  shows "inline_cr v l s = Return r (l', s') \<Longrightarrow>
           r \<and> stack_step v False (open_blocks s) (matched s) (result_symbol l')
                 (open_blocks s') (matched s')"
    and "inline_cr v l s = Break (l', s') \<Longrightarrow>
           open_blocks s' = open_blocks s \<and> matched s' = matched s"
  using assms
  by (clarsimp simp: inline_cr_def stack_step_def Let_def case_prod_unfold prod_eq_iff
      split: if_splits)+

lemma inline_lf_step:
  assumes "unat (matched s) > length (open_blocks s)"
  shows "inline_lf v l s = Return r (l', s') \<Longrightarrow>
           r \<and> stack_step v False (open_blocks s) (matched s) (result_symbol l')
                 (open_blocks s') (matched s')"
    and "inline_lf v l s = Break (l', s') \<Longrightarrow>
           open_blocks s' = open_blocks s \<and> matched s' = matched s"
  using assms
  by (clarsimp simp: inline_lf_def stack_step_def Let_def case_prod_unfold prod_eq_iff
      split: if_splits)+

lemma inline_backtick_step:
  assumes "unat (matched s) > length (open_blocks s)"
  shows "inline_backtick v l s = Return r (l', s') \<Longrightarrow>
           r \<and> stack_step v False (open_blocks s) (matched s) (result_symbol l')
                 (open_blocks s') (matched s')"
    and "inline_backtick v l s = Break (l', s') \<Longrightarrow>
           open_blocks s' = open_blocks s \<and> matched s' = matched s"
  using assms
  by (clarsimp simp: inline_backtick_def stack_step_def Let_def case_prod_unfold prod_eq_iff
      split: if_splits)+

lemma emphasis_next_step:
  assumes "unat (matched s) > length (open_blocks s)"
    and "close_tok = EMPHASIS_CLOSE_STAR \<or> close_tok = EMPHASIS_CLOSE_UNDERSCORE"
    and "open_tok = EMPHASIS_OPEN_STAR \<or> open_tok = EMPHASIS_OPEN_UNDERSCORE"
  shows "emphasis_next open_tok close_tok v l s = Return r (l', s') \<Longrightarrow>
           r \<and> stack_step v False (open_blocks s) (matched s) (result_symbol l')
                 (open_blocks s') (matched s')"
    and "emphasis_next open_tok close_tok v l s = Break (l', s') \<Longrightarrow>
           open_blocks s' = open_blocks s \<and> matched s' = matched s"
  using assms
  by (auto simp: emphasis_next_def stack_step_def Let_def case_prod_unfold prod_eq_iff
      split: if_splits)

lemma inline_star_step:
  assumes "unat (matched s) > length (open_blocks s)"
  shows "inline_star v l s = Return r (l', s') \<Longrightarrow>
           r \<and> stack_step v False (open_blocks s) (matched s) (result_symbol l')
                 (open_blocks s') (matched s')"
    and "inline_star v l s = Break (l', s') \<Longrightarrow>
           open_blocks s' = open_blocks s \<and> matched s' = matched s"
proof -
  assume a: "inline_star v l s = Return r (l', s')"
  show "r \<and> stack_step v False (open_blocks s) (matched s) (result_symbol l')
                 (open_blocks s') (matched s')"
  proof (cases "num_emphasis_delimiters_left s > 0")
    case True
    with a have "emphasis_next EMPHASIS_OPEN_STAR EMPHASIS_CLOSE_STAR v l s
                   = Return r (l', s')"
      by (simp add: inline_star_def)
    then show ?thesis
      by (rule emphasis_next_step(1) [OF assms, rotated 2]) simp_all
  next
    case False
    with a assms show ?thesis
      by (clarsimp simp: inline_star_def stack_step_def Let_def case_prod_unfold prod_eq_iff
          split: if_splits)
  qed
next
  assume a: "inline_star v l s = Break (l', s')"
  show "open_blocks s' = open_blocks s \<and> matched s' = matched s"
  proof (cases "num_emphasis_delimiters_left s > 0")
    case True
    with a have "emphasis_next EMPHASIS_OPEN_STAR EMPHASIS_CLOSE_STAR v l s = Break (l', s')"
      by (simp add: inline_star_def)
    then show ?thesis
      by (rule emphasis_next_step(2) [OF assms, rotated 2]) simp_all
  next
    case False
    with a assms show ?thesis
      by (clarsimp simp: inline_star_def Let_def case_prod_unfold prod_eq_iff
          split: if_splits)
  qed
qed

lemma inline_underscore_step:
  assumes "unat (matched s) > length (open_blocks s)"
  shows "inline_underscore v l s = Return r (l', s') \<Longrightarrow>
           r \<and> stack_step v False (open_blocks s) (matched s) (result_symbol l')
                 (open_blocks s') (matched s')"
    and "inline_underscore v l s = Break (l', s') \<Longrightarrow>
           open_blocks s' = open_blocks s \<and> matched s' = matched s"
proof -
  assume a: "inline_underscore v l s = Return r (l', s')"
  show "r \<and> stack_step v False (open_blocks s) (matched s) (result_symbol l')
                 (open_blocks s') (matched s')"
  proof (cases "num_emphasis_delimiters_left s > 0")
    case True
    with a have "emphasis_next EMPHASIS_OPEN_UNDERSCORE EMPHASIS_CLOSE_UNDERSCORE v l s
                   = Return r (l', s')"
      by (simp add: inline_underscore_def)
    then show ?thesis
      by (rule emphasis_next_step(1) [OF assms, rotated 2]) simp_all
  next
    case False
    with a assms show ?thesis
      by (clarsimp simp: inline_underscore_def stack_step_def Let_def case_prod_unfold
          prod_eq_iff split: if_splits)
  qed
next
  assume a: "inline_underscore v l s = Break (l', s')"
  show "open_blocks s' = open_blocks s \<and> matched s' = matched s"
  proof (cases "num_emphasis_delimiters_left s > 0")
    case True
    with a have "emphasis_next EMPHASIS_OPEN_UNDERSCORE EMPHASIS_CLOSE_UNDERSCORE v l s
                   = Break (l', s')"
      by (simp add: inline_underscore_def)
    then show ?thesis
      by (rule emphasis_next_step(2) [OF assms, rotated 2]) simp_all
  next
    case False
    with a assms show ?thesis
      by (clarsimp simp: inline_underscore_def Let_def case_prod_unfold prod_eq_iff
          split: if_splits)
  qed
qed

lemma flow_result:
  assumes "(case f of Return r st \<Rightarrow> (r, st) | Break st \<Rightarrow> (False, st)) = (r, l', s')"
    and "\<And>r l' s'. f = Return r (l', s') \<Longrightarrow> r \<and> P l' s'"
    and "\<And>l' s'. f = Break (l', s') \<Longrightarrow> Q s'"
  shows "if r then P l' s' else Q s'"
proof (cases f)
  case (Break st)
  with assms(1) assms(3) [of "fst st" "snd st"] show ?thesis by auto
next
  case (Return r0 st)
  with assms(1) assms(2) [of r0 "fst st" "snd st"] show ?thesis by auto
qed

lemma scan_inline_step:
  assumes "scan_inline v l s = (r, l', s')"
    and "unat (matched s) > length (open_blocks s)"
  shows "if r then stack_step v False (open_blocks s) (matched s) (result_symbol l')
                     (open_blocks s') (matched s')
         else open_blocks s' = open_blocks s \<and> matched s' = matched s"
proof (cases "v VIRTUAL_SPACE \<and> indentation s > 0")
  case True
  with assms show ?thesis
    by (auto simp: scan_inline_def stack_step_def)
next
  case False
  let ?f = "if lookahead l = chr_cr then inline_cr v l s
               else if lookahead l = chr_lf then inline_lf v l s
               else if lookahead l = chr_backtick then inline_backtick v l s
               else if lookahead l = chr_star then inline_star v l s
               else if lookahead l = chr_underscore then inline_underscore v l s
               else Break (l, s)"
  from False have f: "(case ?f of Return r st \<Rightarrow> (r, st) | Break st \<Rightarrow> (False, st))
                        = (r, l', s')"
    using assms(1) unfolding scan_inline_def by (simp only: if_False)
  show ?thesis
  proof (rule flow_result [OF f])
    fix r l' s'
    assume "?f = Return r (l', s')"
    then show "r \<and> stack_step v False (open_blocks s) (matched s) (result_symbol l')
                     (open_blocks s') (matched s')"
      using inline_cr_step(1) [OF assms(2), of v l r l' s']
        inline_lf_step(1) [OF assms(2), of v l r l' s']
        inline_backtick_step(1) [OF assms(2), of v l r l' s']
        inline_star_step(1) [OF assms(2), of v l r l' s']
        inline_underscore_step(1) [OF assms(2), of v l r l' s']
      by (simp split: if_splits)
  next
    fix l' s'
    assume "?f = Break (l', s')"
    then show "open_blocks s' = open_blocks s \<and> matched s' = matched s"
      using inline_cr_step(2) [OF assms(2), of v l l' s']
        inline_lf_step(2) [OF assms(2), of v l l' s']
        inline_backtick_step(2) [OF assms(2), of v l l' s']
        inline_star_step(2) [OF assms(2), of v l l' s']
        inline_underscore_step(2) [OF assms(2), of v l l' s']
      by (simp split: if_splits)
  qed
qed

lemma scan_indentation_step:
  assumes "scan_indentation l s = (r, l', s')"
    and "unat (matched s) \<le> length (open_blocks s)" and "v INDENTATION"
  shows "r \<and> stack_step v False (open_blocks s) (matched s) (result_symbol l')
           (open_blocks s') (matched s')"
  using assms
  by (clarsimp simp: scan_indentation_def stack_step_def Let_def case_prod_unfold prod_eq_iff)

lemma scan_body_block:
  assumes "\<not> eof l" and "unat (matched s) \<le> length (open_blocks s)"
    and "\<not> (v INDENTATION \<and> (lookahead l = chr_space \<or> lookahead l = chr_tab))"
    and "matching = (\<not> cb \<and> unat (matched s) < length (open_blocks s))"
  shows "scan_body p v cb l s =
     (case scan_indented v cb matching l s of
        Return r st \<Rightarrow> Some (r, st)
      | Break (l1, s1) \<Rightarrow>
          (case scan_list_item v matching l1 s1 of
             Return r st \<Rightarrow> Some (r, st)
           | Break (l2, s2) \<Rightarrow>
               (case block_switch v cb matching l2 s2 of
                  Return r st \<Rightarrow> Some (r, st)
                | Break (l3, s3) \<Rightarrow> scan_tail p v cb matching l3 s3)))"
proof -
  have "\<not> unat (matched s) > length (open_blocks s)"
    using assms(2) by simp
  then show ?thesis
    unfolding scan_body_def Let_def assms(4)
    by (simp only: assms(1) assms(3) if_False)
qed

text \<open>
  What a probe does to the scanner: nothing to the cursor, and to the stack only a pop,
  when it finds the lexer at the end of the input.
\<close>

lemma probe_effect:
  assumes "scan_body p v True l s = Some (r, l', s')"
    and "unat (matched s) \<le> length (open_blocks s)"
  shows "matched s' = matched s \<and>
         (if eof l then open_blocks s' = butlast (open_blocks s) \<and> r = (open_blocks s \<noteq> [])
          else open_blocks s' = open_blocks s)"
proof (cases "eof l")
  case True
  with assms show ?thesis
    by (auto simp: scan_body_def scan_eof_def close_top_def split: if_splits)
next
  case False
  note ne = this
  show ?thesis
  proof (cases "v INDENTATION \<and> (lookahead l = chr_space \<or> lookahead l = chr_tab)")
    case True
    with assms ne show ?thesis
      by (clarsimp simp: scan_body_def scan_indentation_def Let_def case_prod_unfold
          prod_eq_iff)
  next
    case False
    with assms ne scan_body_block [of l s v False True p] have
      b: "(case scan_indented v True False l s of
              Return r st \<Rightarrow> Some (r, st)
            | Break (l1, s1) \<Rightarrow>
                (case scan_list_item v False l1 s1 of
                   Return r st \<Rightarrow> Some (r, st)
                 | Break (l2, s2) \<Rightarrow>
                     (case block_switch v True False l2 s2 of
                        Return r st \<Rightarrow> Some (r, st)
                      | Break (l3, s3) \<Rightarrow> scan_tail p v True False l3 s3)))
          = Some (r, l', s')"
      by simp
    have "frame s s'"
      using b
      by (auto simp: scan_tail_check_block split: flow.splits
          dest!: scan_indented_frame scan_list_item_frame block_switch_check
                 block_switch_break)
    then show ?thesis
      using ne by (simp add: frame_def)
  qed
qed

lemma scan_tail_step:
  assumes t: "scan_tail (scan_body p v True) v False matching l3 s3 = Some (r, l', s')"
    and m: "unat (matched s3) \<le> length (open_blocks s3)"
      "matching = (unat (matched s3) < length (open_blocks s3))"
    and e: "eof l3 \<Longrightarrow> matching \<Longrightarrow> is_fenced (open_blocks s3 ! unat (matched s3))"
  shows "r \<and> stack_step v False (open_blocks s3) (matched s3) (result_symbol l')
           (open_blocks s') (matched s')"
proof (cases "matching \<and> v BLOCK_CONTINUATION \<and>
    (open_blocks s3 ! unat (matched s3) = FENCED_CODE_BLOCK_TILDE \<or>
     open_blocks s3 ! unat (matched s3) = FENCED_CODE_BLOCK_BACKTICK)")
  case True
  with t m show ?thesis
    by (clarsimp simp: scan_tail_def stack_step_def is_leaf_def is_fenced_def
        split: if_splits)
next
  case nf: False
  show ?thesis
  proof (cases matching)
    case False
    with t m nf show ?thesis
      by (clarsimp simp: scan_tail_def stack_step_def split: if_splits)
  next
    case True
    then have ne: "open_blocks s3 \<noteq> []" and lt: "unat (matched s3) < length (open_blocks s3)"
      using m by auto
    show ?thesis
    proof (cases "v LAZY_CONTINUATION")
      case False
      with t nf True have "close_top_checked (mark_end l3) s3 = Some (r, l', s')"
        by (auto simp: scan_tail_def Let_def split: if_splits)
      with ne lt show ?thesis
        by (clarsimp simp: close_top_checked_def close_top_def stack_step_def)
    next
      case lazy: True
      from t nf True lazy have
        c: "(case scan_body p v True (mark_end l3) s3 of
               None \<Rightarrow> None
             | Some (r, l2, s2) \<Rightarrow>
                 if \<not> r
                 then Some (True, l2\<lparr>result_symbol := LAZY_CONTINUATION\<rparr>,
                        s2\<lparr>indentation := 0,
                           matched := of_nat (length (open_blocks s2) + 1)\<rparr>)
                 else close_top_checked l2 s2) = Some (r, l', s')"
        by (auto simp: scan_tail_def Let_def split: if_splits)
      then obtain r2 l2 s2 where
        p: "scan_body p v True (mark_end l3) s3 = Some (r2, l2, s2)"
        by (cases "scan_body p v True (mark_end l3) s3") auto
      note pe = probe_effect [OF p m(1)]
      show ?thesis
      proof (cases r2)
        case False
        with pe ne have ob: "open_blocks s2 = open_blocks s3" and "\<not> eof l3"
          by (auto split: if_splits)
        with c p False lazy lt show ?thesis
          by (clarsimp simp: stack_step_def)
      next
        case r2: True
        with c p have ct: "close_top_checked l2 s2 = Some (r, l', s')"
          by simp
        show ?thesis
        proof (cases "eof l3")
          case False
          with pe have "open_blocks s2 = open_blocks s3" "matched s2 = matched s3"
            by auto
          with ct lt show ?thesis
            by (clarsimp simp: close_top_checked_def close_top_def stack_step_def
                split: if_splits)
        next
          case True
          with pe have "open_blocks s2 = butlast (open_blocks s3)" "matched s2 = matched s3"
            by auto
          with ct lt e [OF True \<open>matching\<close>] show ?thesis
            by (clarsimp simp: close_top_checked_def close_top_def stack_step_def
                split: if_splits)
        qed
      qed
    qed
  qed
qed

text \<open>
  Every call of \<^verbatim>\<open>scan\<close> with \<^verbatim>\<open>check_block = false\<close> that returns true makes a step
  of \<open>stack_step\<close>; one that returns false leaves the stack and the cursor alone.
\<close>

lemma scan_stack_step:
  assumes "scan v False l s = Some (r, l', s')"
  shows "if r then stack_step v (eof l) (open_blocks s) (matched s) (result_symbol l')
                     (open_blocks s') (matched s')
         else open_blocks s' = open_blocks s \<and> matched s' = matched s"
proof -
  let ?p = "scan_body (\<lambda>l s. None) v True"
  from assms have b: "scan_body ?p v False l s = Some (r, l', s')"
    by (simp add: scan_def)
  show ?thesis
  proof (cases "eof l")
    case True
    with b have "scan_eof l s = (r, l', s')"
      by (simp add: scan_body_def)
    from scan_eof_step [OF this, of v] True show ?thesis
      by auto
  next
    case ne: False
    show ?thesis
    proof (cases "unat (matched s) > length (open_blocks s)")
      case True
      with b ne have "scan_inline v l s = (r, l', s')"
        by (simp add: scan_body_def)
      from scan_inline_step [OF this True] ne show ?thesis
        by simp
    next
      case False
      then have le: "unat (matched s) \<le> length (open_blocks s)"
        by simp
      show ?thesis
      proof (cases "v INDENTATION \<and> (lookahead l = chr_space \<or> lookahead l = chr_tab)")
        case True
        with b ne False have "scan_indentation l s = (r, l', s')"
          by (simp add: scan_body_def)
        from scan_indentation_step [OF this le] True ne show ?thesis
          by simp
      next
        case ni: False
        define matching where "matching = (unat (matched s) < length (open_blocks s))"
        have mt: "matching = (\<not> False \<and> unat (matched s) < length (open_blocks s))"
          by (simp add: matching_def)
        note bb = b [unfolded scan_body_block [of l s v matching False ?p, OF ne le ni mt]]
        have "r \<and> stack_step v False (open_blocks s) (matched s) (result_symbol l')
                (open_blocks s') (matched s')"
        proof (cases "scan_indented v False matching l s")
          case (Return r1 st1)
          with bb have "scan_indented v False matching l s = Return r (l', s')"
            by simp
          from scan_indented_return [OF this le matching_def] show ?thesis .
        next
          case (Break st1)
          then have b1: "scan_indented v False matching l s = Break (fst st1, snd st1)"
            by simp
          from scan_indented_frame(1) [OF b1] have st1: "st1 = (l, s)"
            by (simp add: prod_eq_iff)
          show ?thesis
          proof (cases "scan_list_item v matching l s")
            case (Return r2 st2)
            with bb Break st1 have "scan_list_item v matching l s = Return r (l', s')"
              by simp
            from scan_list_item_return [OF this le matching_def] show ?thesis .
          next
            case b2: (Break st2)
            then have "scan_list_item v matching l s = Break (fst st2, snd st2)"
              by simp
            from scan_list_item_frame(1) [OF this] have st2: "st2 = (l, s)"
              by (simp add: prod_eq_iff)
            show ?thesis
            proof (cases "block_switch v False matching l s")
              case (Return r3 st3)
              with bb Break st1 b2 st2 have
                "block_switch v False matching l s = Return r (l', s')"
                by simp
              from block_switch_return [OF this le matching_def] show ?thesis .
            next
              case b3: (Break st3)
              obtain l3 s3 where st3: "st3 = (l3, s3)"
                by (cases st3) auto
              from b3 st3 have bs: "block_switch v False matching l s = Break (l3, s3)"
                by simp
              from block_switch_break [OF bs] have fr: "frame s s3" .
              then have f3: "open_blocks s3 = open_blocks s" "matched s3 = matched s"
                by (simp_all add: frame_def)
              from bb Break st1 b2 st2 b3 st3 have
                tl: "scan_tail ?p v False matching l3 s3 = Some (r, l', s')"
                by simp
              have e: "is_fenced (open_blocks s3 ! unat (matched s3))"
                if "eof l3" and "matching"
                using block_switch_break_input [of v False l s l3 s3] bs that ne
                by (auto simp: f3 eof_def)
              have "unat (matched s3) \<le> length (open_blocks s3)"
                and "matching = (unat (matched s3) < length (open_blocks s3))"
                using le by (simp_all add: f3 matching_def)
              from scan_tail_step [OF tl this e] show ?thesis
                by (simp add: f3)
            qed
          qed
        qed
        with ne show ?thesis
          by simp
      qed
    qed
  qed
qed

subsection \<open>Evaluating \<^verbatim>\<open>scan\<close> on concrete input\<close>

lemmas scan_defs =
  external_scanner_scan_def scan_def scan_body_def scan_eof_def scan_inline_def
  scan_indentation_def scan_indented_def scan_list_item_def scan_tail_def block_switch_def
  block_blank_line_def block_quote_def block_tilde_def block_backtick_def block_atx_def
  block_equals_def block_plus_def block_digits_def block_minus_def block_star_def
  block_underscore_def inline_cr_def inline_lf_def inline_backtick_def inline_star_def
  inline_underscore_def emphasis_next_def close_top_def close_top_checked_def
  close_symbol_def open_list_item_def loosen_def is_list_item_def list_item_indentation_def
  is_punctuation_def is_whitespace_def advance_def lexer_advance_def mark_end_def
  lookahead_def eof_def start_lexer_def fresh_scanner_def Let_def

lemmas loop_simps =
  backtick_loop.simps tilde_loop.simps hash_loop.simps equals_loop.simps
  space_skip_loop.simps space_count_loop.simps digits_loop.simps indentation_loop.simps
  star_run_loop.simps underscore_run_loop.simps minus_loop.simps star_loop.simps
  underscore_loop.simps

subsection \<open>The mask of valid symbols\<close>

text \<open>
  C1, as the claim states it, fails: at the end of the input \<^verbatim>\<open>scan\<close> closes the open
  block quote with \<^verbatim>\<open>BLOCK_CLOSE\<close> although the mask has no bit set.
\<close>

theorem scan_ignores_mask_at_eof:
  "\<exists>l' s'. external_scanner_scan (\<lambda>t. False) (start_lexer [])
              (fresh_scanner\<lparr>open_blocks := [BLOCK_QUOTE]\<rparr>) = Some (True, l', s')
           \<and> result_symbol l' = BLOCK_CLOSE
           \<and> \<not> (\<lambda>t. False) (result_symbol l')"
  by (simp add: scan_defs)

text \<open>
  Inside a run of emphasis delimiters (\<^verbatim>\<open>num_emphasis_delimiters_left > 0\<close>) the open
  token is emitted only when its own bit is set.
\<close>

lemma emphasis_open_in_run:
  assumes "scan_inline v l s = (True, l', s')"
    and "num_emphasis_delimiters_left s > 0"
    and "result_symbol l' = EMPHASIS_OPEN_STAR \<or> result_symbol l' = EMPHASIS_OPEN_UNDERSCORE"
  shows "v (result_symbol l')"
  using assms
  by (auto simp: scan_inline_def inline_cr_def inline_lf_def inline_backtick_def
      inline_star_def inline_underscore_def emphasis_next_def Let_def case_prod_unfold
      split: if_splits)

lemma scan_mask_cases:
  assumes "external_scanner_scan v l s = Some (True, l', s')"
  shows "v (result_symbol l')
     \<or> (result_symbol l' \<in> {BLOCK_CLOSE, BLOCK_CLOSE_LOOSE} \<and>
        (eof l \<or> unat (matched s) < length (open_blocks s)) \<and>
        matched s' = matched s \<and> length (open_blocks s') < length (open_blocks s))
     \<or> result_symbol l' = MATCHING_DONE
     \<or> result_symbol l' \<in> {ATX_H2_MARKER, ATX_H3_MARKER, ATX_H4_MARKER, ATX_H5_MARKER,
           ATX_H6_MARKER, LIST_MARKER_DOT, LIST_MARKER_PARENTHETHIS}
     \<or> (result_symbol l' \<in> {EMPHASIS_OPEN_STAR, EMPHASIS_OPEN_UNDERSCORE} \<and>
        num_emphasis_delimiters_left s = 0)"
proof -
  from assms have sc: "scan v False l s = Some (True, l', s')"
    by (simp add: external_scanner_scan_def)
  from scan_stack_step [OF sc]
  have st: "stack_step v (eof l) (open_blocks s) (matched s) (result_symbol l')
              (open_blocks s') (matched s')"
    by simp
  define t where "t = result_symbol l'"
  define bs where "bs = open_blocks s"
  define bs' where "bs' = open_blocks s'"
  note st' = st [folded t_def bs_def bs'_def]
  have cs: "close_symbol b = BLOCK_CLOSE \<or> close_symbol b = BLOCK_CLOSE_LOOSE" for b
    by (simp add: close_symbol_def)
  have "v t
     \<or> (t \<in> {BLOCK_CLOSE, BLOCK_CLOSE_LOOSE} \<and> (eof l \<or> unat (matched s) < length bs) \<and>
        matched s' = matched s \<and> length bs' < length bs)
     \<or> t = MATCHING_DONE
     \<or> t \<in> {ATX_H2_MARKER, ATX_H3_MARKER, ATX_H4_MARKER, ATX_H5_MARKER,
           ATX_H6_MARKER, LIST_MARKER_DOT, LIST_MARKER_PARENTHETHIS}
     \<or> (t \<in> {EMPHASIS_OPEN_STAR, EMPHASIS_OPEN_UNDERSCORE} \<and>
        num_emphasis_delimiters_left s = 0)"
  proof (cases "eof l")
    case True
    with st' cs [of "last bs"] show ?thesis
      by (auto simp: stack_step_def)
  next
    case ne: False
    show ?thesis
    proof (cases "unat (matched s) > length bs")
      case True
      with sc ne have si: "scan_inline v l s = (True, l', s')"
        by (simp add: scan_def scan_body_def bs_def)
      from st' ne True have
        "v t \<or> t = EMPHASIS_OPEN_STAR \<or> t = EMPHASIS_OPEN_UNDERSCORE"
        unfolding stack_step_def by (simp only: if_False if_True) blast
      with emphasis_open_in_run [OF si] show ?thesis
        unfolding t_def by (cases "num_emphasis_delimiters_left s = 0")
          (auto simp: word_greater_zero_iff)
    next
      case nd: False
      show ?thesis
      proof (cases "unat (matched s) < length bs")
        case True
        then have ne2: "length (butlast bs) < length bs"
          and ne3: "length (butlast (butlast bs)) < length bs"
          by auto
        from st' ne nd True have
          "v t \<or> (t = close_symbol (last bs) \<and> bs' = butlast bs \<and> matched s' = matched s)
             \<or> (t = close_symbol (last (butlast bs)) \<and> bs' = butlast (butlast bs) \<and>
                 matched s' = matched s)"
          unfolding stack_step_def by (simp only: if_False if_True) blast
        with cs [of "last bs"] cs [of "last (butlast bs)"] True ne2 ne3 show ?thesis
          by auto
      next
        case False
        from st' ne nd False have
          "v t \<or> t = MATCHING_DONE \<or> t \<in> {ATX_H2_MARKER, ATX_H3_MARKER, ATX_H4_MARKER,
             ATX_H5_MARKER, ATX_H6_MARKER, LIST_MARKER_DOT, LIST_MARKER_PARENTHETHIS}"
          unfolding stack_step_def by (simp only: if_False) blast
        then show ?thesis by blast
      qed
    qed
  qed
  then show ?thesis
    by (simp only: t_def bs_def bs'_def)
qed


text \<open>
  Two consequences, for the branches that do look up the bit of the token they emit: a
  closing fence (the cursor moves on by one) and an emphasis open token inside a run.
\<close>

lemma fence_close_honours_mask:
  assumes "external_scanner_scan v l s = Some (True, l', s')"
    and "result_symbol l' = BLOCK_CLOSE" and "matched s' = matched s + 1"
  shows "v BLOCK_CLOSE"
  using scan_mask_cases [OF assms(1)] assms(2,3) by auto

lemma emphasis_run_open_honours_mask:
  assumes "external_scanner_scan v l s = Some (True, l', s')"
    and "result_symbol l' = EMPHASIS_OPEN_STAR \<or> result_symbol l' = EMPHASIS_OPEN_UNDERSCORE"
    and "num_emphasis_delimiters_left s \<noteq> 0"
  shows "v (result_symbol l')"
  using scan_mask_cases [OF assms(1)] assms(2,3) by auto

text \<open>
  C1, amended. A call that returns true has looked up the bit of the token it emits,
  but for these: \<^verbatim>\<open>BLOCK_CLOSE\<close> and \<^verbatim>\<open>BLOCK_CLOSE_LOOSE\<close> when they close the top of
  the stack at the end of the input or because the block under the cursor fails to match
  (the cursor stays and the stack shrinks), and \<^verbatim>\<open>MATCHING_DONE\<close>, all three emitted
  whatever the mask says. Nothing is stated of the tokens of the branches that look up
  another token's bit: the ATX markers of level 2 to 6, the two ordered list markers, and
  an emphasis open token at the head of a run (\<^verbatim>\<open>num_emphasis_delimiters_left = 0\<close>). The
  \<^verbatim>\<open>BLOCK_CLOSE\<close> of a closing fence and the emphasis open token inside a run are among
  the tokens that are looked up.
\<close>

theorem scan_honours_mask:
  assumes "external_scanner_scan v l s = Some (True, l', s')"
  shows "v (result_symbol l')
     \<or> (result_symbol l' \<in> {BLOCK_CLOSE, BLOCK_CLOSE_LOOSE} \<and>
        (eof l \<or> unat (matched s) < length (open_blocks s)) \<and>
        matched s' = matched s \<and> length (open_blocks s') < length (open_blocks s))
     \<or> result_symbol l' = MATCHING_DONE
     \<or> result_symbol l' \<in> {ATX_H2_MARKER, ATX_H3_MARKER, ATX_H4_MARKER, ATX_H5_MARKER,
           ATX_H6_MARKER, LIST_MARKER_DOT, LIST_MARKER_PARENTHETHIS}
     \<or> (result_symbol l' \<in> {EMPHASIS_OPEN_STAR, EMPHASIS_OPEN_UNDERSCORE} \<and>
        num_emphasis_delimiters_left s = 0)"
  using assms by (rule scan_mask_cases)

theorem scan_honours_mask_witness:
  "\<exists>l' s'. external_scanner_scan (\<lambda>t. t = BLOCK_CLOSE)
              (start_lexer [chr_tilde, chr_tilde, chr_tilde, chr_lf])
              (fresh_scanner\<lparr>open_blocks := [FENCED_CODE_BLOCK_TILDE],
                 code_span_delimiter_length := 3\<rparr>) = Some (True, l', s')
           \<and> result_symbol l' = BLOCK_CLOSE \<and> matched s' = 1
           \<and> (\<lambda>t. t = BLOCK_CLOSE) (result_symbol l')"
proof -
  obtain l' s' where
    ev: "external_scanner_scan (\<lambda>t. t = BLOCK_CLOSE)
           (start_lexer [chr_tilde, chr_tilde, chr_tilde, chr_lf])
           (fresh_scanner\<lparr>open_blocks := [FENCED_CODE_BLOCK_TILDE],
              code_span_delimiter_length := 3\<rparr>) = Some (True, l', s')"
    and rs: "result_symbol l' = BLOCK_CLOSE" and m: "matched s' = 1"
    by (simp add: scan_defs loop_simps)
  from scan_honours_mask [OF ev] rs m have "(\<lambda>t. t = BLOCK_CLOSE) (result_symbol l')"
    by (simp add: fresh_scanner_def)
  with ev rs m show ?thesis by blast
qed

subsection \<open>The cursor and the height of the stack\<close>

lemma unat_plus_le: "unat (m + k :: 8 word) \<le> unat m + unat k"
  by (simp add: unat_word_ariths)

lemma unat_of_nat_le: "unat (of_nat k :: 8 word) \<le> k"
  by (simp add: unat_of_nat)

text \<open>
  C3, as the claim states it, fails: for the input \<^verbatim>\<open>> a\<close> without a final newline the
  scanner is in the inline phase with one open block and \<^verbatim>\<open>matched = 2\<close> when the input
  ends; the call pops the block and leaves \<^verbatim>\<open>matched\<close> alone.
\<close>

theorem scan_eof_breaks_matched_bound:
  "unat (matched (fresh_scanner\<lparr>open_blocks := [BLOCK_QUOTE], matched := 2\<rparr>))
     \<le> length (open_blocks (fresh_scanner\<lparr>open_blocks := [BLOCK_QUOTE], matched := 2\<rparr>)) + 1
   \<and> (\<exists>l' s'. external_scanner_scan (\<lambda>t. True) (start_lexer [])
                 (fresh_scanner\<lparr>open_blocks := [BLOCK_QUOTE], matched := 2\<rparr>)
               = Some (True, l', s')
             \<and> unat (matched s') = 2 \<and> length (open_blocks s') + 1 = 1)"
  by (simp add: scan_defs)

text \<open>
  C3, amended. A call that does not find the lexer at the end of the input keeps
  \<^verbatim>\<open>matched <= open_blocks.size() + 1\<close>. At the end of the input the call leaves
  \<^verbatim>\<open>matched\<close> as it is and, when it returns true, pops one block.
\<close>

theorem scan_matched_bound:
  assumes "unat (matched s) \<le> length (open_blocks s) + 1"
    and "external_scanner_scan v l s = Some (r, l', s')"
  shows "if eof l
         then matched s' = matched s \<and>
              open_blocks s' = (if r then butlast (open_blocks s) else open_blocks s)
         else unat (matched s') \<le> length (open_blocks s') + 1"
proof -
  from assms(2) have sc: "scan v False l s = Some (r, l', s')"
    by (simp add: external_scanner_scan_def)
  note st = scan_stack_step [OF sc]
  show ?thesis
  proof (cases r)
    case False
    with st assms(1) show ?thesis by simp
  next
    case True
    with st have ss: "stack_step v (eof l) (open_blocks s) (matched s) (result_symbol l')
        (open_blocks s') (matched s')"
      by simp
    show ?thesis
    proof (cases "eof l")
      case e: True
      with ss True show ?thesis
        by (simp add: stack_step_def)
    next
      case e: False
      have p1: "unat (matched s + 1) \<le> unat (matched s) + 1"
        using unat_plus_le [of "matched s" 1] by simp
      have p2: "unat (matched s + 2) \<le> unat (matched s) + 2"
        using unat_plus_le [of "matched s" 2] by simp
      have p3: "unat (of_nat (length (open_blocks s) + 1) :: 8 word)
                  \<le> length (open_blocks s) + 1"
        by (rule unat_of_nat_le)
      from ss e assms(1) p1 p2 p3 show ?thesis
        unfolding stack_step_def
        by (simp split: if_splits) (auto simp del: of_nat_add of_nat_Suc)
    qed
  qed
qed

theorem scan_matched_bound_witness:
  "\<exists>l' s'. external_scanner_scan (\<lambda>t. True) (start_lexer [chr_gt, chr_space, 97])
              fresh_scanner = Some (True, l', s')
         \<and> unat (matched s') \<le> length (open_blocks s') + 1"
proof -
  obtain l' s' where
    ev: "external_scanner_scan (\<lambda>t. True) (start_lexer [chr_gt, chr_space, 97])
           fresh_scanner = Some (True, l', s')"
    by (simp add: scan_defs)
  have "unat (matched fresh_scanner) \<le> length (open_blocks fresh_scanner) + 1"
    by (simp add: fresh_scanner_def)
  from scan_matched_bound [OF this ev] show ?thesis
    using ev by (simp add: eof_def start_lexer_def)
qed

subsection \<open>Line endings\<close>

text \<open>
  What holds of the line ending branch: in the inline phase, with \<^verbatim>\<open>LINE_ENDING\<close> in the
  mask and no virtual space pending, a lookahead \<^verbatim>\<open>\r\<close> or \<^verbatim>\<open>\n\<close> gives \<^verbatim>\<open>LINE_ENDING\<close>
  and resets \<^verbatim>\<open>matched\<close>, \<^verbatim>\<open>indentation\<close> and \<^verbatim>\<open>column\<close>; a \<^verbatim>\<open>\n\<close> consumes exactly
  itself.
\<close>

lemma line_ending_resets:
  assumes "unat (matched s) > length (open_blocks s)"
    and "valid_symbols LINE_ENDING" and "\<not> (valid_symbols VIRTUAL_SPACE \<and> indentation s > 0)"
    and "input l = c # rest" and "c = chr_cr \<or> c = chr_lf"
  shows "\<exists>l' s'. external_scanner_scan valid_symbols l s = Some (True, l', s') \<and>
           result_symbol l' = LINE_ENDING \<and>
           matched s' = 0 \<and> indentation s' = 0 \<and> column s' = 0 \<and>
           open_blocks s' = open_blocks s"
  using assms
  by (auto simp: external_scanner_scan_def scan_def scan_body_def scan_inline_def
      inline_cr_def inline_lf_def eof_def lookahead_def Let_def case_prod_unfold)

lemma line_ending_lf_consumes_one:
  assumes "unat (matched s) > length (open_blocks s)"
    and "valid_symbols LINE_ENDING" and "\<not> (valid_symbols VIRTUAL_SPACE \<and> indentation s > 0)"
    and "input l = chr_lf # rest"
  shows "\<exists>l' s'. external_scanner_scan valid_symbols l s = Some (True, l', s') \<and>
           input l' = rest \<and> position l' = position l + 1 \<and> token_end l' = token_end l"
  using assms
  by (auto simp: external_scanner_scan_def scan_def scan_body_def scan_inline_def
      inline_lf_def eof_def lookahead_def advance_def lexer_advance_def Let_def
      case_prod_unfold)

text \<open>
  C4. The claim fails on the code: the \<^verbatim>\<open>\r\<close> case advances once more after the
  line ending. With \<^verbatim>\<open>\rXY\<close> the lexer is left behind the \<^verbatim>\<open>X\<close> (two units consumed
  instead of one), with \<^verbatim>\<open>\r\nXY\<close> as well (three instead of two).
\<close>

theorem line_ending_cr_consumes_next:
  "map_option (\<lambda>(r, l', s'). (r, result_symbol l', input l', token_end_position l'))
     (external_scanner_scan (\<lambda>t. t = LINE_ENDING) (start_lexer [chr_cr, 88, 89])
        (fresh_scanner\<lparr>matched := 1\<rparr>))
     = Some (True, LINE_ENDING, [89], 2)
   \<and> map_option (\<lambda>(r, l', s'). (r, result_symbol l', input l', token_end_position l'))
     (external_scanner_scan (\<lambda>t. t = LINE_ENDING) (start_lexer [chr_cr, chr_lf, 88, 89])
        (fresh_scanner\<lparr>matched := 1\<rparr>))
     = Some (True, LINE_ENDING, [89], 3)"
  by (simp add: scan_defs token_end_position_def)

theorem line_ending_cr_consumes_next_witness:
  "map_option (\<lambda>(r, l', s'). input l')
     (external_scanner_scan (\<lambda>t. t = LINE_ENDING) (start_lexer [chr_cr, 88, 89])
        (fresh_scanner\<lparr>matched := 1\<rparr>))
     = Some [89]"
  using line_ending_cr_consumes_next
  by (auto simp: map_option_case split: option.splits)

subsection \<open>Block openers and the indentation\<close>

text \<open>
  C5. The claim fails on the code: the cases \<^verbatim>\<open>'>'\<close>, \<^verbatim>\<open>'~'\<close>, \<^verbatim>\<open>'`'\<close> and \<^verbatim>\<open>'='\<close> do not
  look at \<^verbatim>\<open>indentation\<close>, unlike the cases \<^verbatim>\<open>'#'\<close>, \<^verbatim>\<open>'+'\<close>, \<^verbatim>\<open>'-'\<close>, \<^verbatim>\<open>'*'\<close>, \<^verbatim>\<open>'_'\<close> and the
  digits. On a paragraph continuation line (\<^verbatim>\<open>LAZY_CONTINUATION\<close> valid, so that no indented
  chunk starts) with indentation 4, each of them opens its block.
\<close>

definition paragraph_mask :: "TokenType \<Rightarrow> bool" where
  "paragraph_mask t = (t \<in> {INDENTED_CHUNK_START, LAZY_CONTINUATION, BLOCK_QUOTE_START,
     FENCED_CODE_BLOCK_START, SETEXT_H1_UNDERLINE, MATCHING_DONE})"

theorem openers_ignore_indentation:
  "map_option (\<lambda>(r, l', s'). (r, result_symbol l', open_blocks s'))
     (external_scanner_scan paragraph_mask (start_lexer [chr_gt, chr_space, 97])
        (fresh_scanner\<lparr>indentation := 4\<rparr>))
     = Some (True, BLOCK_QUOTE_START, [BLOCK_QUOTE])
   \<and> map_option (\<lambda>(r, l', s'). (r, result_symbol l', open_blocks s'))
     (external_scanner_scan paragraph_mask (start_lexer [chr_tilde, chr_tilde, chr_tilde, chr_lf])
        (fresh_scanner\<lparr>indentation := 4\<rparr>))
     = Some (True, FENCED_CODE_BLOCK_START, [FENCED_CODE_BLOCK_TILDE])
   \<and> map_option (\<lambda>(r, l', s'). (r, result_symbol l', open_blocks s'))
     (external_scanner_scan paragraph_mask
        (start_lexer [chr_backtick, chr_backtick, chr_backtick, chr_lf])
        (fresh_scanner\<lparr>indentation := 4\<rparr>))
     = Some (True, FENCED_CODE_BLOCK_START, [FENCED_CODE_BLOCK_BACKTICK])
   \<and> map_option (\<lambda>(r, l', s'). (r, result_symbol l', open_blocks s'))
     (external_scanner_scan paragraph_mask (start_lexer [chr_equals, chr_equals, chr_lf])
        (fresh_scanner\<lparr>indentation := 4\<rparr>))
     = Some (True, SETEXT_H1_UNDERLINE, [])"
  by (simp add: scan_defs loop_simps paragraph_mask_def)

theorem openers_ignore_indentation_witness:
  "map_option (\<lambda>(r, l', s'). result_symbol l')
     (external_scanner_scan paragraph_mask (start_lexer [chr_gt, chr_space, 97])
        (fresh_scanner\<lparr>indentation := 4\<rparr>))
     = Some BLOCK_QUOTE_START"
  using openers_ignore_indentation
  by (auto simp: map_option_case split: option.splits)

subsection \<open>Leaf blocks stay on top of the stack\<close>







lemma unat_loosen: "is_tight b \<Longrightarrow> unat (loosen b) = unat b + 7"
  by (auto simp: loosen_def is_tight_def word_le_nat_alt unat_word_ariths)

lemma is_leaf_unat: "is_leaf b = (unat b = 1 \<or> unat b = 16 \<or> unat b = 17)"
  by (simp add: is_leaf_def is_fenced_def word_unat_eq_iff)

lemma is_leaf_loosen [simp]: "is_leaf (loosen b) = is_leaf b"
proof (cases "is_tight b")
  case True
  then have "unat b \<ge> 2" "unat b \<le> 8"
    by (simp_all add: is_tight_def word_le_nat_alt)
  with unat_loosen [OF True] show ?thesis
    by (simp add: is_leaf_unat)
next
  case False
  then show ?thesis by (auto simp: loosen_def is_tight_def)
qed















subsection \<open>The states the scanner reaches\<close>



subsection \<open>Loose list items\<close>

lemma loosen_cases:
  "if is_tight b
   then is_loose (loosen b) \<and> list_item_indentation (loosen b) = list_item_indentation b
   else loosen b = b"
proof (cases "is_tight b")
  case True
  then have u: "2 \<le> unat b" "unat b \<le> 8"
    by (simp_all add: is_tight_def word_le_nat_alt)
  have l: "unat (loosen b) = unat b + 7"
    by (rule unat_loosen [OF True])
  have lo: "is_loose (loosen b)"
    using u l by (simp add: is_loose_def word_le_nat_alt)
  have "is_list_item b" "is_list_item (loosen b)"
    using u l by (simp_all add: is_list_item_def word_le_nat_alt)
  then have "list_item_indentation (loosen b) = loosen b - 9 + 2"
    and "list_item_indentation b = b - 2 + 2"
    using u l by (simp_all add: list_item_indentation_unsigned word_le_nat_alt)
  moreover have "loosen b = b + 7"
    using True by (simp add: loosen_def is_tight_def)
  ultimately show ?thesis
    using True lo by simp
next
  case False
  then show ?thesis by (auto simp: loosen_def is_tight_def)
qed

lemma loose_not_tight: "is_loose b \<Longrightarrow> \<not> is_tight b"
  by (auto simp: is_loose_def is_tight_def word_le_nat_alt)

lemma loosen_loose [simp]: "is_loose b \<Longrightarrow> loosen b = b"
  using loosen_cases [of b] by (simp add: loose_not_tight)








subsection \<open>Runs of the scanner\<close>








subsection \<open>The content indentation of a list item\<close>















definition is_list_marker :: "TokenType \<Rightarrow> bool" where
  "is_list_marker t =
     (t = LIST_MARKER_MINUS \<or> t = LIST_MARKER_PLUS \<or> t = LIST_MARKER_STAR \<or>
      t = LIST_MARKER_PARENTHETHIS \<or> t = LIST_MARKER_DOT)"






text \<open>The other cases of the \<^verbatim>\<open>switch\<close> return other tokens.\<close>

lemma atx_not_list_marker: "level \<le> 6 \<Longrightarrow> \<not> is_list_marker (ATX_H1_MARKER + (level - 1))"
  by (auto simp: is_list_marker_def)










subsection \<open>Runs of emphasis delimiters\<close>








text \<open>
  The choice at the head of a run, on the mask and the character \<open>nx\<close> after the run:
  \<^verbatim>\<open>right_flanking\<close> and \<^verbatim>\<open>left_flanking\<close> as the \<^verbatim>\<open>'_'\<close> case names them, and the test
  under which the head of the run is a closing delimiter.
\<close>

definition right_flanking :: "(TokenType \<Rightarrow> bool) \<Rightarrow> 8 word \<Rightarrow> bool" where
  "right_flanking v nx =
     (\<not> v LAST_TOKEN_WHITESPACE \<and>
      (\<not> v LAST_TOKEN_PUNCTUATION \<or> is_punctuation nx \<or> is_whitespace nx))"

definition left_flanking :: "(TokenType \<Rightarrow> bool) \<Rightarrow> 8 word \<Rightarrow> bool" where
  "left_flanking v nx =
     (\<not> is_whitespace nx \<and>
      (\<not> is_punctuation nx \<or> v LAST_TOKEN_PUNCTUATION \<or> v LAST_TOKEN_WHITESPACE))"











end
